theory Spec2Isabelle
  imports Main "HOL-Library.AList"
begin

section \<open>Data model of the agent controller (src/src/agent.ts)\<close>

text \<open>
  The class \<open>AgentManager\<close> is modelled by explicit state passing over a record of its
  private fields. The collaborators that are not part of the repository (the run of the
  agents SDK, the clock and the random source, the JSON printer, the settings model,
  the model factory) are the fields of an environment record, so that every theorem
  holds for whatever they return.
\<close>

datatype error = Error string

record token_usage =
  inputTokens :: int
  outputTokens :: int

text \<open>The closed event vocabulary \<open>IAgentEventTypeMap\<close>, in the order of the source.
  An entry of a grouped approval is the triple (interruptionId, toolName, toolInput).\<close>

datatype agent_event =
    MessageStart string
  | MessageChunk string string string
  | MessageComplete string string
  | ToolCallStart string string string
  | ToolCallComplete string string string bool
  | ToolApprovalRequired string string string "string option"
  | GroupedApprovalRequired string "(string \<times> string \<times> string) list"
  | ErrorEvent error

text \<open>The items of a streamed run that \<open>_processRunResult\<close> tells apart; every other
  shape falls into one of the \<open>Other\<close> constructors.\<close>

datatype model_event =
    ToolCallEvent string string string
  | OtherModelEvent

datatype raw_model_data =
    ResponseStarted
  | OutputTextDelta "string option"
  | ResponseDone token_usage
  | ModelData model_event
  | OtherData

datatype tool_output = StringOutput string | ObjectOutput string

record run_tool_call_output =
  out_callId :: string
  out_output :: tool_output
  out_rawType :: string
  out_status :: string
  out_name :: string

datatype run_stream_event =
    RawModelStreamEvent raw_model_data
  | RunItemStreamEvent string run_tool_call_output
  | OtherStreamEvent

record run_tool_approval_item =
  raw_name :: "string option"
  raw_arguments :: "string option"
  raw_type :: string
  raw_callId :: string

datatype agent_input_item = User string | OtherItem string

text \<open>
  A \<open>StreamedRunResult\<close>: the events its async iterator delivers, the error the iterator
  throws after them (if any), and what the settled result exposes. \<open>r_state\<close> is
  the identity of the \<open>RunState\<close> object; the verdicts applied to that object live in the
  store \<open>runStates\<close> of the manager, because \<open>_interruptedState\<close> and the local variable
  \<open>result\<close> of \<open>generateResponse\<close> alias it.
\<close>

record streamed_run_result =
  r_events :: "run_stream_event list"
  r_failure :: "error option"
  r_interruptions :: "run_tool_approval_item list"
  r_state :: nat
  r_history :: "agent_input_item list"

type_synonym verdict = "run_tool_approval_item \<times> bool"

datatype run_input =
    FromHistory "agent_input_item list"
  | FromState nat "verdict list"

record run_call =
  rc_runner :: nat
  rc_input :: run_input
  rc_maxTurns :: "nat option"

record pending_approval =
  interruption :: run_tool_approval_item
  approved :: "bool option"
  groupId :: "string option"

record provider_config =
  cfg_id :: string
  cfg_provider :: string
  cfg_model :: "string option"
  cfg_apiKey :: "string option"
  cfg_baseURL :: "string option"
  cfg_maxTurns :: "nat option"

record provider_info =
  apiKeyRequirement :: string
  supportsToolCalling :: "bool option"

record model_options =
  mo_provider :: string
  mo_model :: "string option"
  mo_apiKey :: string
  mo_baseURL :: "string option"

type_synonym language_model = string

datatype instructions = Enhanced string | Plain string

record agent =
  agent_instructions :: instructions
  agent_model :: language_model
  agent_tools :: "string list"

text \<open>
  The environment. \<open>stamp n\<close> is the text \<open>${Date.now()}-${Math.random()}\<close> of the n-th
  identifier that is generated; \<open>prettyJson\<close> is \<open>JSON.stringify(JSON.parse(x), null, 2)\<close>,
  \<open>None\<close> where \<open>JSON.parse\<close> throws; \<open>run k\<close> is the k-th call of \<open>Runner.run\<close>;
  \<open>createModel\<close> is the function of \<open>./providers/models\<close> and \<open>createSAPModel\<close> the SAP
  provider, both outside the repository's sources.
\<close>

record env =
  stamp :: "nat \<Rightarrow> string"
  prettyJson :: "string \<Rightarrow> string option"
  run :: "nat \<Rightarrow> run_input \<Rightarrow> nat option \<Rightarrow> error + streamed_run_result"
  getProvider :: "string \<Rightarrow> provider_config option"
  providerRegistry :: "(string \<Rightarrow> provider_info option) option"
  toolsEnabled :: bool
  systemPrompt :: "string option"
  toolRegistry :: "string list option"
  useSecretsManager :: bool
  secretsManager :: "(string \<Rightarrow> string option) option"
  getApiKey :: "string \<Rightarrow> string"
  createModel :: "model_options \<Rightarrow> error + language_model"
  createSAPModel :: "model_options \<Rightarrow> error + language_model"

text \<open>
  The private fields of \<open>AgentManager\<close>, followed by what an observer sees of it: the
  emissions of the two signals, the \<open>console.warn\<close> diagnostics, the \<open>RunState\<close>
  objects by identity, the calls made to the runner and the number of identifiers drawn.
\<close>

record agent_manager =
  activeProvider :: string
  selectedToolNames :: "string list"
  agent :: "agent option"
  runner :: nat
  history :: "agent_input_item list"
  isInitializing :: bool
  controller :: bool
  pendingApprovals :: "(string \<times> pending_approval) list"
  interruptedState :: "streamed_run_result option"
  tokenUsage :: token_usage
  agentEvent :: "agent_event list"
  tokenUsageChanged :: "token_usage list"
  warnings :: "string list"
  runStates :: "nat \<Rightarrow> verdict list"
  runCalls :: "run_call list"
  draws :: nat

record stream_locals =
  fullResponse :: string
  currentMessageId :: "string option"

section \<open>The event translator\<close>


definition or_else :: "string option \<Rightarrow> string \<Rightarrow> string" where
  "or_else v d = (case v of None \<Rightarrow> d | Some s \<Rightarrow> if s = [] then d else s)"

definition emit :: "agent_event \<Rightarrow> agent_manager \<Rightarrow> agent_manager" where
  "emit e m = m\<lparr>agentEvent := agentEvent m @ [e]\<rparr>"

definition formatToolInput :: "env \<Rightarrow> string \<Rightarrow> string" where
  "formatToolInput env inp = (case prettyJson env inp of Some s \<Rightarrow> s | None \<Rightarrow> inp)"

fun handleToolCallStart :: "env \<Rightarrow> model_event \<Rightarrow> agent_manager \<Rightarrow> agent_manager" where
  "handleToolCallStart env (ToolCallEvent toolCallId toolName toolInput) m =
     emit (ToolCallStart toolCallId toolName (formatToolInput env toolInput)) m"
| "handleToolCallStart env OtherModelEvent m = m"

definition handleToolOutput :: "run_tool_call_output \<Rightarrow> agent_manager \<Rightarrow> agent_manager" where
  "handleToolOutput item m =
     (let resultText = (case out_output item of StringOutput s \<Rightarrow> s | ObjectOutput j \<Rightarrow> j);
          isError = (out_rawType item = ''function_call_result'' \<and> out_status item = ''incomplete'');
          toolName = (if out_rawType item = ''function_call_result'' then out_name item
                      else ''Unknown Tool'')
      in emit (ToolCallComplete (out_callId item) toolName resultText isError) m)"

definition addUsage :: "token_usage \<Rightarrow> agent_manager \<Rightarrow> agent_manager" where
  "addUsage u m =
     (let t = \<lparr>inputTokens = inputTokens (tokenUsage m) + inputTokens u,
                outputTokens = outputTokens (tokenUsage m) + outputTokens u\<rparr>
      in m\<lparr>tokenUsage := t, tokenUsageChanged := tokenUsageChanged m @ [t]\<rparr>)"

text \<open>One turn of the \<open>for await\<close> loop of \<open>_processRunResult\<close>, on its two local
  variables and the manager.\<close>

fun processEvent ::
  "env \<Rightarrow> run_stream_event \<Rightarrow> stream_locals \<Rightarrow> agent_manager \<Rightarrow> stream_locals \<times> agent_manager"
where
  "processEvent env (RawModelStreamEvent ResponseStarted) l m =
     (let mid = ''msg-'' @ stamp env (draws m)
      in (\<lparr>fullResponse = [], currentMessageId = Some mid\<rparr>,
          emit (MessageStart mid) (m\<lparr>draws := Suc (draws m)\<rparr>)))"
| "processEvent env (RawModelStreamEvent (OutputTextDelta d)) l m =
     (case currentMessageId l of
        None \<Rightarrow> (l, m)
      | Some mid \<Rightarrow>
          (let chunk = (case d of None \<Rightarrow> [] | Some c \<Rightarrow> c);
               full = fullResponse l @ chunk
           in (l\<lparr>fullResponse := full\<rparr>, emit (MessageChunk mid chunk full) m)))"
| "processEvent env (RawModelStreamEvent (ResponseDone u)) l m =
     (case currentMessageId l of
        None \<Rightarrow> (l, addUsage u m)
      | Some mid \<Rightarrow>
          (l\<lparr>currentMessageId := None\<rparr>,
           addUsage u (emit (MessageComplete mid (fullResponse l)) m)))"
| "processEvent env (RawModelStreamEvent (ModelData modelEvent)) l m =
     (l, handleToolCallStart env modelEvent m)"
| "processEvent env (RawModelStreamEvent OtherData) l m = (l, m)"
| "processEvent env (RunItemStreamEvent name item) l m =
     (if name = ''tool_output'' then (l, handleToolOutput item m) else (l, m))"
| "processEvent env OtherStreamEvent l m = (l, m)"

fun processEvents ::
  "env \<Rightarrow> run_stream_event list \<Rightarrow> stream_locals \<Rightarrow> agent_manager \<Rightarrow> stream_locals \<times> agent_manager"
where
  "processEvents env [] l m = (l, m)"
| "processEvents env (e # es) l m =
     (case processEvent env e l m of (l', m') \<Rightarrow> processEvents env es l' m')"

definition initialLocals :: stream_locals where
  "initialLocals = \<lparr>fullResponse = [], currentMessageId = None\<rparr>"

text \<open>\<open>_processRunResult\<close>: the whole stream of a result, then the error the stream
  ends with, if it ends with one.\<close>

definition processRunResult ::
  "env \<Rightarrow> streamed_run_result \<Rightarrow> agent_manager \<Rightarrow> error option \<times> agent_manager"
where
  "processRunResult env res m =
     (r_failure res, snd (processEvents env (r_events res) initialLocals m))"

section \<open>The approval gate\<close>

text \<open>\<open>_handleSingleToolApproval\<close>: one identifier is drawn, the record is stored in the
  map (\<open>Map.set\<close> replaces the value of a key that is present and appends a new key), and
  one event is emitted.\<close>

definition handleSingleToolApproval ::
  "env \<Rightarrow> run_tool_approval_item \<Rightarrow> agent_manager \<Rightarrow> agent_manager"
where
  "handleSingleToolApproval env i m =
     (let toolName = or_else (raw_name i) ''Unknown Tool'';
          toolInput = or_else (raw_arguments i) ''{}'';
          interruptionId = ''int-'' @ stamp env (draws m);
          callId = (if raw_type i = ''function_call'' then Some (raw_callId i) else None);
          m1 = m\<lparr>draws := Suc (draws m),
                 pendingApprovals :=
                   AList.update interruptionId
                     \<lparr>interruption = i, approved = None, groupId = None\<rparr>
                     (pendingApprovals m)\<rparr>
      in emit (ToolApprovalRequired interruptionId toolName
                 (formatToolInput env toolInput) callId) m1)"

text \<open>The callback of \<open>interruptions.map\<close> in \<open>_handleGroupedToolApprovals\<close>, run over
  the list from left to right.\<close>

fun registerGrouped ::
  "env \<Rightarrow> string \<Rightarrow> run_tool_approval_item list \<Rightarrow> agent_manager \<Rightarrow>
   (string \<times> string \<times> string) list \<times> agent_manager"
where
  "registerGrouped env g [] m = ([], m)"
| "registerGrouped env g (i # is) m =
     (let toolName = or_else (raw_name i) ''Unknown Tool'';
          toolInput = or_else (raw_arguments i) ''{}'';
          interruptionId = ''int-'' @ stamp env (draws m);
          m1 = m\<lparr>draws := Suc (draws m),
                 pendingApprovals :=
                   AList.update interruptionId
                     \<lparr>interruption = i, approved = None, groupId = Some g\<rparr>
                     (pendingApprovals m)\<rparr>
      in case registerGrouped env g is m1 of
           (rest, m2) \<Rightarrow>
             ((interruptionId, toolName, formatToolInput env toolInput) # rest, m2))"

definition handleGroupedToolApprovals ::
  "env \<Rightarrow> run_tool_approval_item list \<Rightarrow> agent_manager \<Rightarrow> agent_manager"
where
  "handleGroupedToolApprovals env interruptions m =
     (let g = ''group-'' @ stamp env (draws m)
      in case registerGrouped env g interruptions (m\<lparr>draws := Suc (draws m)\<rparr>) of
           (approvals, m1) \<Rightarrow> emit (GroupedApprovalRequired g approvals) m1)"

text \<open>The branch at the head of the \<open>while (hasInterruptions)\<close> body of
  \<open>generateResponse\<close>; it is entered with a non-empty list only, so \<open>interruptions[0]\<close>
  exists in the second branch.\<close>

definition requestApproval ::
  "env \<Rightarrow> run_tool_approval_item list \<Rightarrow> agent_manager \<Rightarrow> agent_manager"
where
  "requestApproval env interruptions m =
     (if length interruptions > 1 then handleGroupedToolApprovals env interruptions m
      else case interruptions of
             [] \<Rightarrow> m
           | i # _ \<Rightarrow> handleSingleToolApproval env i m)"

text \<open>\<open>this._interruptedState.state.approve(i)\<close> and \<open>.reject(i)\<close>, guarded by
  \<open>if (this._interruptedState)\<close>: the verdict is recorded on the \<open>RunState\<close> object the
  field points to.\<close>

definition applyVerdict :: "run_tool_approval_item \<Rightarrow> bool \<Rightarrow> agent_manager \<Rightarrow> agent_manager" where
  "applyVerdict i v m =
     (case interruptedState m of
        None \<Rightarrow> m
      | Some r \<Rightarrow>
          m\<lparr>runStates := (runStates m)(r_state r := runStates m (r_state r) @ [(i, v)])\<rparr>)"

definition deletePending :: "string \<Rightarrow> agent_manager \<Rightarrow> agent_manager" where
  "deletePending k m = m\<lparr>pendingApprovals := AList.delete k (pendingApprovals m)\<rparr>"

definition warn :: "string \<Rightarrow> agent_manager \<Rightarrow> agent_manager" where
  "warn w m = m\<lparr>warnings := warnings m @ [w]\<rparr>"

text \<open>\<open>pending.approved\<close> is set on the record just before the record is deleted from the
  map, so nothing keeps it; the model deletes the record.\<close>

definition approveToolCall :: "string \<Rightarrow> agent_manager \<Rightarrow> agent_manager" where
  "approveToolCall interruptionId m =
     (case map_of (pendingApprovals m) interruptionId of
        None \<Rightarrow> warn (''No pending approval found for interruption '' @ interruptionId) m
      | Some pending \<Rightarrow>
          deletePending interruptionId (applyVerdict (interruption pending) True m))"

definition rejectToolCall :: "string \<Rightarrow> agent_manager \<Rightarrow> agent_manager" where
  "rejectToolCall interruptionId m =
     (case map_of (pendingApprovals m) interruptionId of
        None \<Rightarrow> warn (''No pending approval found for interruption '' @ interruptionId) m
      | Some pending \<Rightarrow>
          deletePending interruptionId (applyVerdict (interruption pending) False m))"

fun resolveGrouped :: "bool \<Rightarrow> string \<Rightarrow> string list \<Rightarrow> agent_manager \<Rightarrow> agent_manager" where
  "resolveGrouped v g [] m = m"
| "resolveGrouped v g (interruptionId # ids) m =
     resolveGrouped v g ids
       (case map_of (pendingApprovals m) interruptionId of
          None \<Rightarrow> m
        | Some pending \<Rightarrow>
            if groupId pending = Some g
            then deletePending interruptionId (applyVerdict (interruption pending) v m)
            else m)"

definition approveGroupedToolCalls :: "string \<Rightarrow> string list \<Rightarrow> agent_manager \<Rightarrow> agent_manager" where
  "approveGroupedToolCalls g ids m = resolveGrouped True g ids m"

definition rejectGroupedToolCalls :: "string \<Rightarrow> string list \<Rightarrow> agent_manager \<Rightarrow> agent_manager" where
  "rejectGroupedToolCalls g ids m = resolveGrouped False g ids m"

section \<open>Session state and configuration\<close>

definition zeroUsage :: token_usage where
  "zeroUsage = \<lparr>inputTokens = 0, outputTokens = 0\<rparr>"

text \<open>\<open>clearHistory\<close>. \<open>new Runner(...)\<close> is a runner that did not exist before: the
  next identity.\<close>

definition clearHistory :: "agent_manager \<Rightarrow> agent_manager" where
  "clearHistory m =
     m\<lparr>history := [],
       runner := Suc (runner m),
       pendingApprovals := [],
       interruptedState := None,
       tokenUsage := zeroUsage,
       tokenUsageChanged := tokenUsageChanged m @ [zeroUsage]\<rparr>"


definition supportsToolCallingNow :: "env \<Rightarrow> agent_manager \<Rightarrow> bool" where
  "supportsToolCallingNow env m =
     (case getProvider env (activeProvider m) of
        None \<Rightarrow> False
      | Some c \<Rightarrow>
          (case providerRegistry env of
             None \<Rightarrow> False
           | Some registry \<Rightarrow>
               (case registry (cfg_provider c) of
                  None \<Rightarrow> True
                | Some info \<Rightarrow> supportsToolCalling info \<noteq> Some False)))"

definition shouldUseTools :: "env \<Rightarrow> agent_manager \<Rightarrow> bool" where
  "shouldUseTools env m =
     (toolsEnabled env \<and> selectedToolNames m \<noteq> [] \<and>
      (case toolRegistry env of
         None \<Rightarrow> False
       | Some tools \<Rightarrow> tools \<noteq> [] \<and> supportsToolCallingNow env m))"

definition selectedAgentTools :: "env \<Rightarrow> agent_manager \<Rightarrow> string list" where
  "selectedAgentTools env m =
     (case toolRegistry env of
        None \<Rightarrow> []
      | Some tools \<Rightarrow> filter (\<lambda>name. name \<in> set tools) (selectedToolNames m))"

definition DEFAULT_MAX_TURNS :: nat where
  "DEFAULT_MAX_TURNS = 25"

definition maxTurnsOf :: "env \<Rightarrow> agent_manager \<Rightarrow> nat" where
  "maxTurnsOf env m =
     (case getProvider env (activeProvider m) of
        None \<Rightarrow> DEFAULT_MAX_TURNS
      | Some c \<Rightarrow> (case cfg_maxTurns c of None \<Rightarrow> DEFAULT_MAX_TURNS | Some n \<Rightarrow> n))"

text \<open>The method \<open>_createModel\<close> (the primed name tells it from the imported function
  \<open>createModel\<close>, a field of the environment).\<close>

definition createModel' :: "env \<Rightarrow> agent_manager \<Rightarrow> error + language_model" where
  "createModel' env m =
     (if activeProvider m = [] then Inl (Error ''No active provider configured'')
      else case getProvider env (activeProvider m) of
             None \<Rightarrow> Inl (Error ''No active provider configured'')
           | Some c \<Rightarrow>
               (let apiKey =
                      (case secretsManager env of
                         Some secret \<Rightarrow>
                           if useSecretsManager env
                           then (case secret (cfg_provider c @ '':apiKey'') of
                                   None \<Rightarrow> [] | Some v \<Rightarrow> v)
                           else getApiKey env (cfg_id c)
                       | None \<Rightarrow> getApiKey env (cfg_id c));
                    options = \<lparr>mo_provider = cfg_provider c, mo_model = cfg_model c,
                               mo_apiKey = apiKey, mo_baseURL = cfg_baseURL c\<rparr>
                in if cfg_provider c = ''sap'' then createSAPModel env options
                   else createModel env options))"

text \<open>
  \<open>initializeAgent\<close> has one suspension point, \<open>await this._createModel()\<close>. The part
  before it is \<open>initializeAgent_enter\<close> (the flag is tested and set); the part after it
  is \<open>initializeAgent_settle\<close> (the agent is built or set to null, and the flag is
  cleared in \<open>finally\<close>). The MCP servers and the model settings take no part in any
  property below and are left out of the agent.
\<close>

definition initializeAgent_enter :: "agent_manager \<Rightarrow> bool \<times> agent_manager" where
  "initializeAgent_enter m =
     (if isInitializing m then (False, m) else (True, m\<lparr>isInitializing := True\<rparr>))"

definition initializeAgent_settle :: "env \<Rightarrow> agent_manager \<Rightarrow> agent_manager" where
  "initializeAgent_settle env m =
     (case createModel' env m of
        Inl e \<Rightarrow> (warn ''Failed to initialize agent:'' m)\<lparr>agent := None, isInitializing := False\<rparr>
      | Inr model \<Rightarrow>
          m\<lparr>agent :=
                Some \<lparr>agent_instructions =
                        (if shouldUseTools env m then Enhanced (or_else (systemPrompt env) [])
                         else Plain (or_else (systemPrompt env) ''You are a helpful assistant.'')),
                      agent_model = model,
                      agent_tools = (if shouldUseTools env m then selectedAgentTools env m else [])\<rparr>,
            isInitializing := False\<rparr>)"

section \<open>The run driver\<close>

text \<open>
  \<open>generateResponse\<close> is an async function: it runs until an \<open>await\<close> that waits for
  the outside world, and other calls on the manager run in between. A call that is
  suspended is a task, named after the place where it waits:
  \<^item> \<open>AwaitInit message\<close>: in \<open>await this.initializeAgent()\<close>, itself waiting in
    \<open>await this._createModel()\<close>;
  \<^item> \<open>InitOnly\<close>: a call of \<open>initializeAgent\<close> from elsewhere, at the same place;
  \<^item> \<open>Streaming result rest locals maxTurns\<close>: in the \<open>for await\<close> of
    \<open>_processRunResult(result)\<close>, the events \<open>rest\<close> to come, with the two local
    variables of that method;
  \<^item> \<open>Polling result maxTurns\<close>: in the timer of the loop
    \<open>while (this._pendingApprovals.size > 0)\<close>;
  \<^item> \<open>Settled outcome\<close>: returned; \<open>Some e\<close> when the \<open>catch\<close> block ran on \<open>e\<close>.
  An \<open>await\<close> of a function that waits for nothing outside is run through in one step.
  \<open>stopStreaming\<close> and the abort signal take no part in the properties below and are
  left out; the field \<open>_controller\<close> is kept as a flag. The setters of
  \<open>activeProvider\<close> and of the selected tools are not among the actions: the two fields
  keep the values the constructor gave them.
\<close>

datatype task =
    AwaitInit string
  | InitOnly
  | Streaming streamed_run_result "run_stream_event list" stream_locals nat
  | Polling streamed_run_result nat
  | Settled "error option"

record system =
  mgr :: agent_manager
  tasks :: "task list"

datatype action =
    CallGenerateResponse string
  | CallInitializeAgent
  | Resume nat
  | ApproveToolCall string
  | RejectToolCall string
  | ApproveGroupedToolCalls string "string list"
  | RejectGroupedToolCalls string "string list"
  | ClearHistory

text \<open>\<open>this._runner.run(...)\<close>: the call is logged, the environment answers it.\<close>

definition callRunner ::
  "env \<Rightarrow> run_input \<Rightarrow> nat option \<Rightarrow> agent_manager \<Rightarrow>
   (error + streamed_run_result) \<times> agent_manager"
where
  "callRunner env inp maxTurns m =
     (run env (length (runCalls m)) inp maxTurns,
      m\<lparr>runCalls := runCalls m @
           [\<lparr>rc_runner = runner m, rc_input = inp, rc_maxTurns = maxTurns\<rparr>]\<rparr>)"

text \<open>The \<open>catch\<close> block followed by \<open>finally\<close>.\<close>

definition gr_catch :: "error \<Rightarrow> agent_manager \<Rightarrow> agent_manager \<times> task" where
  "gr_catch e m = ((emit (ErrorEvent e) m)\<lparr>controller := False\<rparr>, Settled (Some e))"

text \<open>After \<open>await this._runner.run(...)\<close>: the call threw, or \<open>_processRunResult\<close>
  starts on the result with fresh local variables.\<close>

definition gr_stream ::
  "nat \<Rightarrow> (error + streamed_run_result) \<times> agent_manager \<Rightarrow> agent_manager \<times> task"
where
  "gr_stream maxTurns out =
     (case out of
        (Inl e, m) \<Rightarrow> gr_catch e m
      | (Inr res, m) \<Rightarrow> (m, Streaming res (r_events res) initialLocals maxTurns))"

text \<open>From \<open>const shouldUseTools\<close> to the first \<open>runner.run\<close>.\<close>

definition gr_run :: "env \<Rightarrow> string \<Rightarrow> agent_manager \<Rightarrow> agent_manager \<times> task" where
  "gr_run env message m =
     (let useTools = shouldUseTools env m;
          m1 = m\<lparr>history := history m @ [User message]\<rparr>;
          maxTurns = maxTurnsOf env m1
      in gr_stream maxTurns
           (callRunner env (FromHistory (history m1))
              (if useTools then Some maxTurns else None) m1))"

text \<open>The head of \<open>generateResponse\<close>. When \<open>initializeAgent\<close> returns at once (an
  initialization is in progress), the agent is still null and the call throws.\<close>

definition gr_enter :: "env \<Rightarrow> string \<Rightarrow> agent_manager \<Rightarrow> agent_manager \<times> task" where
  "gr_enter env message m =
     (let m1 = m\<lparr>controller := True\<rparr>
      in if agent m1 = None
         then (case initializeAgent_enter m1 of
                 (False, m2) \<Rightarrow> gr_catch (Error ''Failed to initialize agent'') m2
               | (True, m2) \<Rightarrow> (m2, AwaitInit message))
         else gr_run env message m1)"

definition gr_after_init :: "env \<Rightarrow> string \<Rightarrow> agent_manager \<Rightarrow> agent_manager \<times> task" where
  "gr_after_init env message m =
     (let m1 = initializeAgent_settle env m
      in if agent m1 = None then gr_catch (Error ''Failed to initialize agent'') m1
         else gr_run env message m1)"

text \<open>The test of the wait loop and, when the map is empty, the \<open>runner.run\<close> on
  \<open>result.state\<close> that follows it.\<close>

definition gr_poll ::
  "env \<Rightarrow> streamed_run_result \<Rightarrow> nat \<Rightarrow> agent_manager \<Rightarrow> agent_manager \<times> task"
where
  "gr_poll env res maxTurns m =
     (if pendingApprovals m \<noteq> [] then (m, Polling res maxTurns)
      else gr_stream maxTurns
             (callRunner env (FromState (r_state res) (runStates m (r_state res)))
                (Some maxTurns) m))"

text \<open>After a stream that ended without throwing: the test \<open>hasInterruptions\<close>, one
  entry into the body of the outer loop, or the three assignments after it.\<close>

definition gr_settle ::
  "env \<Rightarrow> streamed_run_result \<Rightarrow> nat \<Rightarrow> agent_manager \<Rightarrow> agent_manager \<times> task"
where
  "gr_settle env res maxTurns m =
     (if r_interruptions res \<noteq> []
      then gr_poll env res maxTurns
             (requestApproval env (r_interruptions res) (m\<lparr>interruptedState := Some res\<rparr>))
      else (m\<lparr>interruptedState := None, history := r_history res, controller := False\<rparr>,
            Settled None))"

definition gr_next ::
  "env \<Rightarrow> streamed_run_result \<Rightarrow> run_stream_event list \<Rightarrow> stream_locals \<Rightarrow> nat \<Rightarrow>
   agent_manager \<Rightarrow> agent_manager \<times> task"
where
  "gr_next env res rest l maxTurns m =
     (case rest of
        [] \<Rightarrow> (case r_failure res of
                 Some e \<Rightarrow> gr_catch e m
               | None \<Rightarrow> gr_settle env res maxTurns m)
      | e # es \<Rightarrow> (case processEvent env e l m of
                     (l', m') \<Rightarrow> (m', Streaming res es l' maxTurns)))"

fun resumeTask :: "env \<Rightarrow> task \<Rightarrow> agent_manager \<Rightarrow> agent_manager \<times> task" where
  "resumeTask env (AwaitInit message) m = gr_after_init env message m"
| "resumeTask env InitOnly m = (initializeAgent_settle env m, Settled None)"
| "resumeTask env (Streaming res rest l maxTurns) m = gr_next env res rest l maxTurns m"
| "resumeTask env (Polling res maxTurns) m = gr_poll env res maxTurns m"
| "resumeTask env (Settled outcome) m = (m, Settled outcome)"

fun step :: "env \<Rightarrow> action \<Rightarrow> system \<Rightarrow> system" where
  "step env (CallGenerateResponse message) s =
     (case gr_enter env message (mgr s) of
        (m, t) \<Rightarrow> \<lparr>mgr = m, tasks = tasks s @ [t]\<rparr>)"
| "step env CallInitializeAgent s =
     (case initializeAgent_enter (mgr s) of
        (entered, m) \<Rightarrow>
          \<lparr>mgr = m, tasks = tasks s @ [if entered then InitOnly else Settled None]\<rparr>)"
| "step env (Resume t) s =
     (if t < length (tasks s)
      then (case resumeTask env (tasks s ! t) (mgr s) of
              (m, k) \<Rightarrow> \<lparr>mgr = m, tasks = (tasks s)[t := k]\<rparr>)
      else s)"
| "step env (ApproveToolCall i) s = s\<lparr>mgr := approveToolCall i (mgr s)\<rparr>"
| "step env (RejectToolCall i) s = s\<lparr>mgr := rejectToolCall i (mgr s)\<rparr>"
| "step env (ApproveGroupedToolCalls g ids) s = s\<lparr>mgr := approveGroupedToolCalls g ids (mgr s)\<rparr>"
| "step env (RejectGroupedToolCalls g ids) s = s\<lparr>mgr := rejectGroupedToolCalls g ids (mgr s)\<rparr>"
| "step env ClearHistory s = s\<lparr>mgr := clearHistory (mgr s)\<rparr>"

fun exec :: "env \<Rightarrow> action list \<Rightarrow> system \<Rightarrow> system" where
  "exec env [] s = s"
| "exec env (a # as) s = exec env as (step env a s)"

text \<open>The constructor: the fields are set, and the setter of \<open>activeProvider\<close> calls
  \<open>initializeAgent\<close>, which is left suspended.\<close>

definition newAgentManager :: "env \<Rightarrow> string \<Rightarrow> token_usage option \<Rightarrow> system" where
  "newAgentManager env provider usage =
     step env CallInitializeAgent
       \<lparr>mgr = \<lparr>activeProvider = provider,
                selectedToolNames = (case toolRegistry env of None \<Rightarrow> [] | Some tools \<Rightarrow> tools),
                agent = None, runner = 0, history = [], isInitializing = False,
                controller = False, pendingApprovals = [], interruptedState = None,
                tokenUsage = (case usage of None \<Rightarrow> zeroUsage | Some u \<Rightarrow> u),
                agentEvent = [], tokenUsageChanged = [], warnings = [],
                runStates = (\<lambda>k. []), runCalls = [], draws = 0\<rparr>,
        tasks = []\<rparr>"

text \<open>The factory of \<open>openaiProvider\<close> (built-in providers): it throws without an API
  key and falls back to \<open>gpt-4o\<close> without a model name. The model it returns is
  stood for by the model name.\<close>

definition openaiProvider_factory :: "model_options \<Rightarrow> error + language_model" where
  "openaiProvider_factory options =
     (if mo_apiKey options = [] then Inl (Error ''API key required for OpenAI'')
      else Inr (or_else (mo_model options) ''gpt-4o''))"

section \<open>Vocabulary of the statements\<close>

text \<open>The usage counters that the completion events of a stream report, in order.\<close>

fun completions :: "run_stream_event list \<Rightarrow> token_usage list" where
  "completions [] = []"
| "completions (RawModelStreamEvent (ResponseDone u) # es) = u # completions es"
| "completions (e # es) = completions es"

definition reported :: "streamed_run_result list \<Rightarrow> token_usage list" where
  "reported rs = concat (map (\<lambda>r. completions (r_events r)) rs)"

definition plusUsage :: "token_usage \<Rightarrow> token_usage \<Rightarrow> token_usage" where
  "plusUsage t u = \<lparr>inputTokens = inputTokens t + inputTokens u,
                     outputTokens = outputTokens t + outputTokens u\<rparr>"

fun runningTotals :: "token_usage \<Rightarrow> token_usage list \<Rightarrow> token_usage list" where
  "runningTotals t [] = []"
| "runningTotals t (u # us) = plusUsage t u # runningTotals (plusUsage t u) us"

text \<open>Several results put through \<open>_processRunResult\<close> one after the other.\<close>

fun processResults :: "env \<Rightarrow> streamed_run_result list \<Rightarrow> agent_manager \<Rightarrow> agent_manager" where
  "processResults env [] m = m"
| "processResults env (r # rs) m = processResults env rs (snd (processRunResult env r m))"

text \<open>The entry of a grouped approval for the interruption \<open>snd ki\<close> whose identifier is
  the \<open>fst ki\<close>-th one drawn.\<close>

definition approvalEntry :: "env \<Rightarrow> nat \<times> run_tool_approval_item \<Rightarrow> string \<times> string \<times> string" where
  "approvalEntry env ki =
     (''int-'' @ stamp env (fst ki),
      or_else (raw_name (snd ki)) ''Unknown Tool'',
      formatToolInput env (or_else (raw_arguments (snd ki)) ''{}''))"

text \<open>The pending record of identifier \<open>k\<close> exists and carries the group id \<open>g\<close>.\<close>

definition taggedWith :: "string \<Rightarrow> agent_manager \<Rightarrow> string \<Rightarrow> bool" where
  "taggedWith g m k =
     (case map_of (pendingApprovals m) k of None \<Rightarrow> False | Some p \<Rightarrow> groupId p = Some g)"

text \<open>The agent events that one call of \<open>_processRunResult\<close> emits.\<close>

definition emitted :: "env \<Rightarrow> streamed_run_result \<Rightarrow> agent_manager \<Rightarrow> agent_event list" where
  "emitted env res m =
     drop (length (agentEvent m)) (agentEvent (snd (processRunResult env res m)))"

text \<open>The concatenation, in order, of the fragments of the \<open>message_chunk\<close> events of a
  trace that carry the message id \<open>mid\<close>.\<close>

fun fragments :: "string \<Rightarrow> agent_event list \<Rightarrow> string" where
  "fragments mid [] = []"
| "fragments mid (MessageChunk m c f # es) =
     (if m = mid then c @ fragments mid es else fragments mid es)"
| "fragments mid (e # es) = fragments mid es"

fun startIds :: "agent_event list \<Rightarrow> string list" where
  "startIds [] = []"
| "startIds (MessageStart m # es) = m # startIds es"
| "startIds (e # es) = startIds es"

text \<open>A trace read by an observer who tracks the open message and its content so far:
  a chunk and a completion belong to the open message and carry its content.\<close>

fun conforms :: "string option \<Rightarrow> string \<Rightarrow> agent_event list \<Rightarrow> bool" where
  "conforms cur acc [] = True"
| "conforms cur acc (MessageStart m # es) = conforms (Some m) [] es"
| "conforms cur acc (MessageChunk m c f # es) =
     (cur = Some m \<and> f = acc @ c \<and> conforms cur f es)"
| "conforms cur acc (MessageComplete m c # es) =
     (cur = Some m \<and> c = acc \<and> conforms None acc es)"
| "conforms cur acc (e # es) = conforms cur acc es"







text \<open>The \<open>j\<close>-th call of the runner threw \<open>e\<close>, or answered with a stream that ends by
  throwing \<open>e\<close>; it answered with the result \<open>res\<close>.\<close>

definition raisedBy :: "env \<Rightarrow> agent_manager \<Rightarrow> nat \<Rightarrow> error \<Rightarrow> bool" where
  "raisedBy env m k e =
     (k < length (runCalls m) \<and>
      (case run env k (rc_input (runCalls m ! k)) (rc_maxTurns (runCalls m ! k)) of
         Inl x \<Rightarrow> x = e
       | Inr res \<Rightarrow> r_failure res = Some e))"




text \<open>The call has not returned.\<close>

fun active :: "task \<Rightarrow> bool" where
  "active (Settled outcome) = False"
| "active k = True"

text \<open>What follows serves the proof that the chunks of a message add up over a whole
  execution. The message id an event speaks of; the message ids built from the first
  \<open>d\<close> identifiers drawn; the open message of a task (its id and content so far).\<close>

fun mentions :: "agent_event \<Rightarrow> string option" where
  "mentions (MessageStart m) = Some m"
| "mentions (MessageChunk m c f) = Some m"
| "mentions (MessageComplete m c) = Some m"
| "mentions e = None"

definition drawn :: "env \<Rightarrow> nat \<Rightarrow> string set" where
  "drawn env d = (\<lambda>k. ''msg-'' @ stamp env k) ` {..<d}"

fun openState :: "task \<Rightarrow> (string \<times> string) option" where
  "openState (Streaming res rest l maxTurns) =
     (case currentMessageId l of None \<Rightarrow> None | Some mid \<Rightarrow> Some (mid, fullResponse l))"
| "openState k = None"

text \<open>Every chunk of the trace carries the fragments before it for its id followed by
  its own; every completion carries the fragments before it, and no chunk of its id
  follows it.\<close>

definition goodTrace :: "agent_event list \<Rightarrow> bool" where
  "goodTrace tr =
     ((\<forall>pre mid c f post. tr = pre @ MessageChunk mid c f # post \<longrightarrow> f = fragments mid pre @ c) \<and>
      (\<forall>pre mid content post. tr = pre @ MessageComplete mid content # post \<longrightarrow>
          content = fragments mid pre \<and> fragments mid post = [] \<and>
          (\<forall>c f. MessageChunk mid c f \<notin> set post)))"

text \<open>The invariant: the trace is good, its message ids were drawn, every open message
  has a drawn id, the content the trace gives it and no completion, and two tasks never
  have the same open message.\<close>

definition sinv :: "env \<Rightarrow> agent_event list \<Rightarrow> nat \<Rightarrow> (string \<times> string) option list \<Rightarrow> bool" where
  "sinv env tr d os =
     (goodTrace tr \<and>
      (\<forall>e \<in> set tr. \<forall>m. mentions e = Some m \<longrightarrow> m \<in> drawn env d) \<and>
      (\<forall>i < length os. \<forall>mid full. os ! i = Some (mid, full) \<longrightarrow>
         mid \<in> drawn env d \<and> full = fragments mid tr \<and> (\<forall>c. MessageComplete mid c \<notin> set tr)) \<and>
      (\<forall>i < length os. \<forall>j < length os. \<forall>a fa b fb.
         i \<noteq> j \<and> os ! i = Some (a, fa) \<and> os ! j = Some (b, fb) \<longrightarrow> a \<noteq> b))"

definition streamInv :: "env \<Rightarrow> system \<Rightarrow> bool" where
  "streamInv env s = sinv env (agentEvent (mgr s)) (draws (mgr s)) (map openState (tasks s))"

text \<open>A piece of code that emits no message event and leaves no message open.\<close>

definition quietly :: "agent_manager \<Rightarrow> agent_manager \<times> task \<Rightarrow> bool" where
  "quietly m r =
     (\<exists>evs. agentEvent (fst r) = agentEvent m @ evs \<and> (\<forall>e \<in> set evs. mentions e = None) \<and>
            draws m \<le> draws (fst r) \<and> openState (snd r) = None)"

text \<open>Every message event of the trace has a \<open>message_start\<close> with its message id at or
  before it. The invariant of the order: the trace is such, and the open message of
  every task has been started.\<close>

definition startedTrace :: "agent_event list \<Rightarrow> bool" where
  "startedTrace tr =
     (\<forall>pre e post mid. tr = pre @ e # post \<and> mentions e = Some mid \<longrightarrow>
        MessageStart mid \<in> set (pre @ [e]))"

definition oinv :: "agent_event list \<Rightarrow> (string \<times> string) option list \<Rightarrow> bool" where
  "oinv tr os =
     (startedTrace tr \<and>
      (\<forall>i < length os. \<forall>mid full. os ! i = Some (mid, full) \<longrightarrow> MessageStart mid \<in> set tr))"

definition orderInv :: "system \<Rightarrow> bool" where
  "orderInv s = oinv (agentEvent (mgr s)) (map openState (tasks s))"

text \<open>The completion event that a turn consumes: a task suspended in its stream takes
  the next event of the stream when it is resumed, and that event reports a usage when it
  is a \<open>response_done\<close>. \<open>observed\<close> lists, in order, what the completion events consumed
  along a sequence of actions have reported. \<open>sameUsage m m'\<close>: the counters and the
  notifications of \<open>m'\<close> are those of \<open>m\<close>.\<close>

fun taskObserves :: "task \<Rightarrow> token_usage list" where
  "taskObserves (Streaming res rest l maxTurns) = completions (take 1 rest)"
| "taskObserves k = []"

fun observes :: "action \<Rightarrow> system \<Rightarrow> token_usage list" where
  "observes (Resume t) s = (if t < length (tasks s) then taskObserves (tasks s ! t) else [])"
| "observes a s = []"

fun observed :: "env \<Rightarrow> action list \<Rightarrow> system \<Rightarrow> token_usage list" where
  "observed env [] s = []"
| "observed env (a # as) s = observes a s @ observed env as (step env a s)"

definition sameUsage :: "agent_manager \<Rightarrow> agent_manager \<Rightarrow> bool" where
  "sameUsage m m' = (tokenUsage m' = tokenUsage m \<and> tokenUsageChanged m' = tokenUsageChanged m)"

section \<open>Scenarios\<close>

text \<open>A small concrete world on which the theorems are exercised: a provider \<open>p1\<close>
  backed by the OpenAI factory, identifiers \<open>7\<close>, \<open>77\<close>, \<open>777\<close>, ... and a runner whose
  first run stops on one tool call awaiting approval and whose later runs complete.\<close>

definition demoStamp :: "nat \<Rightarrow> string" where
  "demoStamp n = replicate (Suc n) (CHR ''7'')"

definition demoConfig :: provider_config where
  "demoConfig = \<lparr>cfg_id = ''p1'', cfg_provider = ''openai'', cfg_model = Some ''gpt-4o'',
                  cfg_apiKey = Some ''sk'', cfg_baseURL = None, cfg_maxTurns = None\<rparr>"

definition demoItem1 :: run_tool_approval_item where
  "demoItem1 = \<lparr>raw_name = Some ''list_files'', raw_arguments = Some ''{}'',
                 raw_type = ''function_call'', raw_callId = ''call-1''\<rparr>"

definition demoItem2 :: run_tool_approval_item where
  "demoItem2 = \<lparr>raw_name = None, raw_arguments = None,
                 raw_type = ''hosted_tool_call'', raw_callId = []\<rparr>"

definition demoResultA :: streamed_run_result where
  "demoResultA =
     \<lparr>r_events =
        [RawModelStreamEvent (OutputTextDelta (Some ''lost'')),
         RawModelStreamEvent ResponseStarted,
         RawModelStreamEvent (OutputTextDelta (Some ''Hel'')),
         RawModelStreamEvent (OutputTextDelta (Some ''lo'')),
         RawModelStreamEvent (ResponseDone \<lparr>inputTokens = 10, outputTokens = 2\<rparr>),
         RawModelStreamEvent (ModelData (ToolCallEvent ''call-1'' ''list_files'' ''{}''))],
      r_failure = None,
      r_interruptions = [demoItem1],
      r_state = 0,
      r_history = [User ''list files'', OtherItem ''call-1'']\<rparr>"

definition demoResultB :: streamed_run_result where
  "demoResultB =
     \<lparr>r_events =
        [RunItemStreamEvent ''tool_output''
           \<lparr>out_callId = ''call-1'', out_output = StringOutput ''a.txt'',
            out_rawType = ''function_call_result'', out_status = ''completed'',
            out_name = ''list_files''\<rparr>,
         RawModelStreamEvent ResponseStarted,
         RawModelStreamEvent (OutputTextDelta (Some ''ok'')),
         RawModelStreamEvent (ResponseDone \<lparr>inputTokens = 12, outputTokens = 1\<rparr>)],
      r_failure = None,
      r_interruptions = [],
      r_state = 0,
      r_history = [User ''list files'', OtherItem ''call-1'', OtherItem ''a.txt'',
                   OtherItem ''ok'']\<rparr>"

definition demoRun :: "nat \<Rightarrow> run_input \<Rightarrow> nat option \<Rightarrow> error + streamed_run_result" where
  "demoRun k inp maxTurns = (if k = 0 then Inr demoResultA else Inr demoResultB)"

definition demoEnv :: env where
  "demoEnv =
     \<lparr>stamp = demoStamp,
      prettyJson = (\<lambda>s. None),
      run = demoRun,
      getProvider = (\<lambda>p. if p = ''p1'' then Some demoConfig else None),
      providerRegistry =
        Some (\<lambda>p. if p = ''openai''
                  then Some \<lparr>apiKeyRequirement = ''required'', supportsToolCalling = None\<rparr>
                  else None),
      toolsEnabled = True,
      systemPrompt = None,
      toolRegistry = None,
      useSecretsManager = False,
      secretsManager = None,
      getApiKey = (\<lambda>p. ''sk''),
      createModel = openaiProvider_factory,
      createSAPModel = (\<lambda>options. Inl (Error ''no service key''))\<rparr>"

text \<open>The manager after its construction and the end of its first initialization.\<close>

definition demoReady :: system where
  "demoReady = exec demoEnv [Resume 0] (newAgentManager demoEnv ''p1'' None)"

text \<open>A call \<open>generateResponse('list files')\<close> taken through the seven turns of its first
  stream: it waits on the approval of \<open>list_files\<close>.\<close>

definition demoSuspended :: system where
  "demoSuspended =
     exec demoEnv
       [CallGenerateResponse ''list files'',
        Resume 1, Resume 1, Resume 1, Resume 1, Resume 1, Resume 1, Resume 1]
       demoReady"

text \<open>A result with two interruptions.\<close>

definition demoResultG :: streamed_run_result where
  "demoResultG = demoResultA\<lparr>r_interruptions := [demoItem1, demoItem2]\<rparr>"







text \<open>A call \<open>generateResponse('first')\<close> in the middle of its stream.\<close>

definition demoStreaming :: system where
  "demoStreaming = exec demoEnv [CallGenerateResponse ''first'', Resume 1, Resume 1] demoReady"

text \<open>The whole exchange: the call, the seven turns of its first stream, the approval,
  the turn that starts the second run and the five turns of the second stream.\<close>

definition demoTurns :: "action list" where
  "demoTurns =
     [CallGenerateResponse ''list files'',
      Resume 1, Resume 1, Resume 1, Resume 1, Resume 1, Resume 1, Resume 1,
      ApproveToolCall ''int-77'', Resume 1,
      Resume 1, Resume 1, Resume 1, Resume 1, Resume 1]"

text \<open>A result whose stream carries two messages, and the whole exchange counted from
  the construction of the manager.\<close>

definition demoResultD :: streamed_run_result where
  "demoResultD =
     \<lparr>r_events =
        [RawModelStreamEvent ResponseStarted,
         RawModelStreamEvent (OutputTextDelta (Some ''a'')),
         RawModelStreamEvent (ResponseDone \<lparr>inputTokens = 1, outputTokens = 1\<rparr>),
         RawModelStreamEvent ResponseStarted,
         RawModelStreamEvent (OutputTextDelta (Some ''b'')),
         RawModelStreamEvent (ResponseDone \<lparr>inputTokens = 1, outputTokens = 1\<rparr>)],
      r_failure = None,
      r_interruptions = [],
      r_state = 0,
      r_history = []\<rparr>"

definition demoSession :: "action list" where
  "demoSession = Resume 0 # demoTurns"

section \<open>Properties\<close>

lemmas demo_defs =
  demoStamp_def openaiProvider_factory_def demoConfig_def demoItem1_def demoItem2_def
  demoResultA_def demoResultB_def demoRun_def demoEnv_def
  newAgentManager_def demoReady_def demoSuspended_def

lemmas model_defs =
  initializeAgent_enter_def initializeAgent_settle_def createModel'_def
  shouldUseTools_def maxTurnsOf_def DEFAULT_MAX_TURNS_def gr_enter_def gr_run_def
  gr_stream_def callRunner_def gr_next_def gr_settle_def gr_poll_def gr_catch_def
  gr_after_init_def requestApproval_def handleSingleToolApproval_def
  handleGroupedToolApprovals_def emit_def or_else_def formatToolInput_def addUsage_def
  initialLocals_def zeroUsage_def clearHistory_def Let_def warn_def handleToolOutput_def
  approveToolCall_def rejectToolCall_def applyVerdict_def deletePending_def

subsection \<open>Facts about the scenarios\<close>

lemma demoReady_eval:
  "tasks demoReady = [Settled None]"
  "agent (mgr demoReady) \<noteq> None"
  "history (mgr demoReady) = []"
  "agentEvent (mgr demoReady) = []"
  "runCalls (mgr demoReady) = []"
  "draws (mgr demoReady) = 0"
  by (simp_all add: demo_defs model_defs)

lemma demoSuspended_eval:
  "tasks demoSuspended = [Settled None, Polling demoResultA 25]"
  "pendingApprovals (mgr demoSuspended) =
     [(''int-77'', \<lparr>interruption = demoItem1, approved = None, groupId = None\<rparr>)]"
  "interruptedState (mgr demoSuspended) = Some demoResultA"
  "runner (mgr demoSuspended) = 0"
  "history (mgr demoSuspended) = [User ''list files'']"
  "runStates (mgr demoSuspended) 0 = []"
  "warnings (mgr demoSuspended) = []"
  "runCalls (mgr demoSuspended) =
     [\<lparr>rc_runner = 0, rc_input = FromHistory [User ''list files''], rc_maxTurns = None\<rparr>]"
  "agentEvent (mgr demoSuspended) =
     [MessageStart ''msg-7'', MessageChunk ''msg-7'' ''Hel'' ''Hel'',
      MessageChunk ''msg-7'' ''lo'' ''Hello'', MessageComplete ''msg-7'' ''Hello'',
      ToolCallStart ''call-1'' ''list_files'' ''{}'',
      ToolApprovalRequired ''int-77'' ''list_files'' ''{}'' (Some ''call-1'')]"
  by (simp_all add: demo_defs model_defs)

subsection \<open>Elementary facts\<close>

lemma emit_fields [simp]:
  "agentEvent (emit e m) = agentEvent m @ [e]"
  "pendingApprovals (emit e m) = pendingApprovals m"
  "tokenUsage (emit e m) = tokenUsage m"
  "tokenUsageChanged (emit e m) = tokenUsageChanged m"
  "history (emit e m) = history m"
  "runCalls (emit e m) = runCalls m"
  "draws (emit e m) = draws m"
  by (simp_all add: emit_def)

lemma token_usage_eta [simp]:
  "\<lparr>inputTokens = inputTokens t, outputTokens = outputTokens t\<rparr> = (t::token_usage)"
  by (cases t) simp

lemma update_not_Nil: "AList.update k v al \<noteq> []"
  by (cases al) simp_all

subsection \<open>The turns of a stream and \<open>_processRunResult\<close>\<close>

text \<open>The turns of a streaming task, taken with nothing in between, consume its events
  as \<open>processEvents\<close> does.\<close>

lemma streaming_turns:
  "t < length (tasks s) \<Longrightarrow> tasks s ! t = Streaming res rest l maxTurns \<Longrightarrow>
   exec env (replicate (length rest) (Resume t)) s =
     \<lparr>mgr = snd (processEvents env rest l (mgr s)),
      tasks = (tasks s)[t := Streaming res [] (fst (processEvents env rest l (mgr s))) maxTurns]\<rparr>"
proof (induction rest arbitrary: s l)
  case Nil
  then have "(tasks s)[t := Streaming res [] l maxTurns] = tasks s"
    by (metis list_update_id)
  then show ?case by (cases s) simp
next
  case (Cons e es)
  obtain l1 m1 where pe: "processEvent env e l (mgr s) = (l1, m1)"
    by (cases "processEvent env e l (mgr s)")
  let ?s1 = "\<lparr>mgr = m1, tasks = (tasks s)[t := Streaming res es l1 maxTurns]\<rparr>"
  have st: "step env (Resume t) s = ?s1"
    using Cons.prems pe by (simp add: gr_next_def)
  have "t < length (tasks ?s1)" "tasks ?s1 ! t = Streaming res es l1 maxTurns"
    using Cons.prems(1) by simp_all
  from Cons.IH[OF this] have
    "exec env (replicate (length es) (Resume t)) ?s1 =
       \<lparr>mgr = snd (processEvents env es l1 m1),
        tasks = (tasks s)[t := Streaming res [] (fst (processEvents env es l1 m1)) maxTurns]\<rparr>"
    by simp
  moreover have "exec env (replicate (length (e # es)) (Resume t)) s =
      exec env (replicate (length es) (Resume t)) (step env (Resume t) s)"
    by (simp del: step.simps)
  ultimately show ?case
    unfolding st using pe by simp
qed

text \<open>A whole stream that does not throw, taken turn after turn with nothing in between,
  is \<open>_processRunResult\<close>.\<close>

lemma uninterrupted_stream:
  assumes "t < length (tasks s)"
    and "tasks s ! t = Streaming res (r_events res) initialLocals maxTurns"
  shows "mgr (exec env (replicate (length (r_events res)) (Resume t)) s) =
           snd (processRunResult env res (mgr s))"
  using streaming_turns[OF assms, of env] by (simp add: processRunResult_def)

subsection \<open>Unknown interruption ids\<close>

text \<open>
  Claim C7. Calling \<open>approveToolCall\<close> or \<open>rejectToolCall\<close> with an interruption id that
  is not a key of the pending-approval map throws nothing and changes no field of the
  manager: the pending map, the history, the token counters, the interrupted state, the
  run states and the emitted events are as before. Its one effect is the line written
  by \<open>console.warn\<close>.
\<close>

theorem unknown_id_is_noop:
  "i \<notin> fst ` set (pendingApprovals m) \<Longrightarrow>
     approveToolCall i m =
       m\<lparr>warnings := warnings m @ [''No pending approval found for interruption '' @ i]\<rparr> \<and>
     rejectToolCall i m =
       m\<lparr>warnings := warnings m @ [''No pending approval found for interruption '' @ i]\<rparr>"
  by (simp add: approveToolCall_def rejectToolCall_def warn_def map_of_eq_None_iff[symmetric])

theorem unknown_id_is_noop_witness:
  "''int-7'' \<notin> fst ` set (pendingApprovals (mgr demoSuspended)) \<and>
   approveToolCall ''int-7'' (mgr demoSuspended) =
     (mgr demoSuspended)\<lparr>warnings := [''No pending approval found for interruption int-7'']\<rparr> \<and>
   rejectToolCall ''int-7'' (mgr demoSuspended) =
     (mgr demoSuspended)\<lparr>warnings := [''No pending approval found for interruption int-7'']\<rparr>"
proof -
  have h: "''int-7'' \<notin> fst ` set (pendingApprovals (mgr demoSuspended))"
    by (simp add: demoSuspended_eval)
  show ?thesis
    using unknown_id_is_noop[OF h] h by (simp add: demoSuspended_eval)
qed

subsection \<open>Clearing the session\<close>



subsection \<open>Token accounting\<close>

lemma handleToolCallStart_usage [simp]:
  "tokenUsage (handleToolCallStart env me m) = tokenUsage m"
  "tokenUsageChanged (handleToolCallStart env me m) = tokenUsageChanged m"
  by (cases me; simp)+

lemma handleToolOutput_usage [simp]:
  "tokenUsage (handleToolOutput i m) = tokenUsage m"
  "tokenUsageChanged (handleToolOutput i m) = tokenUsageChanged m"
  by (simp_all add: handleToolOutput_def Let_def)

lemma processEvents_usage:
  "tokenUsage (snd (processEvents env evs l m)) =
     \<lparr>inputTokens = inputTokens (tokenUsage m) + sum_list (map inputTokens (completions evs)),
      outputTokens = outputTokens (tokenUsage m) + sum_list (map outputTokens (completions evs))\<rparr> \<and>
   tokenUsageChanged (snd (processEvents env evs l m)) =
     tokenUsageChanged m @ runningTotals (tokenUsage m) (completions evs)"
proof (induction evs arbitrary: l m)
  case Nil
  show ?case by simp
next
  case (Cons e es)
  show ?case
    by (cases "(env, e, l, m)" rule: processEvent.cases)
       (simp_all add: Cons.IH Let_def addUsage_def plusUsage_def add.assoc split: option.splits)
qed

lemma runningTotals_append:
  "runningTotals t (a @ b) =
     runningTotals t a @
     runningTotals \<lparr>inputTokens = inputTokens t + sum_list (map inputTokens a),
                     outputTokens = outputTokens t + sum_list (map outputTokens a)\<rparr> b"
  by (induction a arbitrary: t) (simp_all add: plusUsage_def add.assoc)

lemma processResults_usage:
  "tokenUsage (processResults env rs m) =
     \<lparr>inputTokens = inputTokens (tokenUsage m) + sum_list (map inputTokens (reported rs)),
      outputTokens = outputTokens (tokenUsage m) + sum_list (map outputTokens (reported rs))\<rparr> \<and>
   tokenUsageChanged (processResults env rs m) =
     tokenUsageChanged m @ runningTotals (tokenUsage m) (reported rs)"
proof (induction rs arbitrary: m)
  case Nil
  show ?case by (simp add: reported_def)
next
  case (Cons r rs)
  show ?case
    using processEvents_usage[of env "r_events r" initialLocals m]
    by (simp add: Cons.IH processRunResult_def reported_def runningTotals_append add.assoc)
qed

lemma sameUsage_refl [simp]: "sameUsage m m"
  by (simp add: sameUsage_def)

lemma sameUsage_trans: "sameUsage m m1 \<Longrightarrow> sameUsage m1 m2 \<Longrightarrow> sameUsage m m2"
  by (simp add: sameUsage_def)

lemma sameUsage_catch: "sameUsage m (fst (gr_catch e m))"
  by (simp add: sameUsage_def gr_catch_def)

lemma sameUsage_stream: "sameUsage m (fst (gr_stream mt (callRunner env inp x m)))"
  by (simp add: sameUsage_def gr_stream_def callRunner_def gr_catch_def split: sum.splits)

lemma sameUsage_run: "sameUsage m (fst (gr_run env msg m))"
  using sameUsage_stream[of "m\<lparr>history := history m @ [User msg]\<rparr>"]
  by (simp add: gr_run_def Let_def sameUsage_def)

lemma sameUsage_settle_init: "sameUsage m (initializeAgent_settle env m)"
  by (simp add: sameUsage_def initializeAgent_settle_def warn_def split: sum.splits)

lemma sameUsage_enter: "sameUsage m (fst (gr_enter env msg m))"
  using sameUsage_run[of "m\<lparr>controller := True\<rparr>" env msg]
  by (simp add: gr_enter_def Let_def initializeAgent_enter_def sameUsage_def gr_catch_def)

lemma sameUsage_after_init: "sameUsage m (fst (gr_after_init env msg m))"
  using sameUsage_run[of "initializeAgent_settle env m" env msg] sameUsage_settle_init[of m env]
  by (simp add: gr_after_init_def Let_def sameUsage_def gr_catch_def)

lemma sameUsage_poll: "sameUsage m (fst (gr_poll env res mt m))"
  by (simp add: gr_poll_def sameUsage_stream)

lemma registerGrouped_usage:
  "sameUsage m (snd (registerGrouped env g is m))"
proof (induction "is" arbitrary: m)
  case Nil
  show ?case by simp
next
  case (Cons i "is")
  let ?m1 = "m\<lparr>draws := Suc (draws m),
                 pendingApprovals :=
                   AList.update (''int-'' @ stamp env (draws m))
                     \<lparr>interruption = i, approved = None, groupId = Some g\<rparr>
                     (pendingApprovals m)\<rparr>"
  from Cons.IH[of ?m1] show ?case
    by (simp add: Let_def case_prod_unfold sameUsage_def)
qed

lemma sameUsage_request: "sameUsage m (requestApproval env is m)"
  using registerGrouped_usage[of "m\<lparr>draws := Suc (draws m)\<rparr>" env _ "is"]
  by (simp add: requestApproval_def handleSingleToolApproval_def handleGroupedToolApprovals_def
        Let_def case_prod_unfold sameUsage_def split: list.splits)

lemma sameUsage_settle: "sameUsage m (fst (gr_settle env res mt m))"
  using sameUsage_request[of "m\<lparr>interruptedState := Some res\<rparr>" env "r_interruptions res"]
        sameUsage_poll[of "requestApproval env (r_interruptions res) (m\<lparr>interruptedState := Some res\<rparr>)"
          env res mt]
  by (simp add: gr_settle_def sameUsage_def)

lemma processEvent_usage:
  "tokenUsage (snd (processEvent env e l m)) =
     \<lparr>inputTokens = inputTokens (tokenUsage m) + sum_list (map inputTokens (completions [e])),
      outputTokens = outputTokens (tokenUsage m) + sum_list (map outputTokens (completions [e]))\<rparr> \<and>
   tokenUsageChanged (snd (processEvent env e l m)) =
     tokenUsageChanged m @ runningTotals (tokenUsage m) (completions [e])"
  using processEvents_usage[of env "[e]" l m] by (simp add: case_prod_unfold)

lemma resumeTask_usage:
  "tokenUsage (fst (resumeTask env k m)) =
     \<lparr>inputTokens = inputTokens (tokenUsage m) + sum_list (map inputTokens (taskObserves k)),
      outputTokens = outputTokens (tokenUsage m) + sum_list (map outputTokens (taskObserves k))\<rparr> \<and>
   tokenUsageChanged (fst (resumeTask env k m)) =
     tokenUsageChanged m @ runningTotals (tokenUsage m) (taskObserves k)"
proof (cases k)
  case (AwaitInit msg)
  then show ?thesis using sameUsage_after_init[of m env msg] by (simp add: sameUsage_def)
next
  case InitOnly
  then show ?thesis using sameUsage_settle_init[of m env] by (simp add: sameUsage_def)
next
  case (Streaming res rest l mt)
  show ?thesis
  proof (cases rest)
    case Nil
    then show ?thesis
      using Streaming sameUsage_catch[of m] sameUsage_settle[of m env res mt]
      by (simp add: gr_next_def sameUsage_def split: option.splits)
  next
    case (Cons e es)
    then show ?thesis
      using Streaming processEvent_usage[of env e l m]
      by (simp add: gr_next_def case_prod_unfold)
  qed
next
  case (Polling res mt)
  then show ?thesis using sameUsage_poll[of m env res mt] by (simp add: sameUsage_def)
next
  case (Settled outcome)
  then show ?thesis by simp
qed

lemma verdict_usage:
  "tokenUsage (applyVerdict i v m) = tokenUsage m"
  "tokenUsageChanged (applyVerdict i v m) = tokenUsageChanged m"
  "tokenUsage (deletePending k m) = tokenUsage m"
  "tokenUsageChanged (deletePending k m) = tokenUsageChanged m"
  "tokenUsage (warn w m) = tokenUsage m"
  "tokenUsageChanged (warn w m) = tokenUsageChanged m"
  by (simp_all add: applyVerdict_def deletePending_def warn_def split: option.splits)

lemma resolveGrouped_usage:
  "tokenUsage (resolveGrouped v g ids m) = tokenUsage m \<and>
   tokenUsageChanged (resolveGrouped v g ids m) = tokenUsageChanged m"
  by (induction ids arbitrary: m) (simp_all add: verdict_usage split: option.splits)

lemma step_usage:
  assumes "a \<noteq> ClearHistory"
  shows "tokenUsage (mgr (step env a s)) =
     \<lparr>inputTokens = inputTokens (tokenUsage (mgr s)) + sum_list (map inputTokens (observes a s)),
      outputTokens = outputTokens (tokenUsage (mgr s)) + sum_list (map outputTokens (observes a s))\<rparr> \<and>
   tokenUsageChanged (mgr (step env a s)) =
     tokenUsageChanged (mgr s) @ runningTotals (tokenUsage (mgr s)) (observes a s)"
proof (cases a)
  case (CallGenerateResponse msg)
  then show ?thesis
    using sameUsage_enter[of "mgr s" env msg] by (simp add: case_prod_unfold sameUsage_def)
next
  case CallInitializeAgent
  then show ?thesis by (simp add: initializeAgent_enter_def)
next
  case (Resume t)
  then show ?thesis
    using resumeTask_usage[of env "tasks s ! t" "mgr s"] by (simp add: case_prod_unfold)
next
  case (ApproveToolCall i)
  then show ?thesis by (simp add: approveToolCall_def verdict_usage split: option.splits)
next
  case (RejectToolCall i)
  then show ?thesis by (simp add: rejectToolCall_def verdict_usage split: option.splits)
next
  case (ApproveGroupedToolCalls g ids)
  then show ?thesis
    using resolveGrouped_usage[of True g ids "mgr s"]
    by (simp add: approveGroupedToolCalls_def)
next
  case (RejectGroupedToolCalls g ids)
  then show ?thesis
    using resolveGrouped_usage[of False g ids "mgr s"]
    by (simp add: rejectGroupedToolCalls_def)
next
  case ClearHistory
  with assms show ?thesis by simp
qed

lemma exec_usage:
  "ClearHistory \<notin> set acts \<Longrightarrow>
   tokenUsage (mgr (exec env acts s)) =
     \<lparr>inputTokens = inputTokens (tokenUsage (mgr s)) + sum_list (map inputTokens (observed env acts s)),
      outputTokens = outputTokens (tokenUsage (mgr s)) + sum_list (map outputTokens (observed env acts s))\<rparr> \<and>
   tokenUsageChanged (mgr (exec env acts s)) =
     tokenUsageChanged (mgr s) @ runningTotals (tokenUsage (mgr s)) (observed env acts s)"
proof (induction acts arbitrary: s)
  case Nil
  show ?case by simp
next
  case (Cons a acts)
  then have a: "a \<noteq> ClearHistory" and rest: "ClearHistory \<notin> set acts" by auto
  show ?case
    using step_usage[OF a, of env s] Cons.IH[OF rest, of "step env a s"]
    by (simp add: runningTotals_append add.assoc del: step.simps)
qed

lemma demoTurns_observed:
  "observed demoEnv demoTurns demoReady =
     [\<lparr>inputTokens = 10, outputTokens = 2\<rparr>, \<lparr>inputTokens = 12, outputTokens = 1\<rparr>]"
  by (simp add: demoTurns_def demo_defs model_defs)

text \<open>
  Claim C4. The token counters accumulate by addition. Along any sequence of actions
  without \<open>clearHistory\<close>, whatever the calls in flight and their interleaving, each
  counter ends as its value before plus the sum of what every completion event consumed
  on the way has reported, and the \<open>tokenUsageChanged\<close> notifications raised on the way
  are one per completion event, each carrying the running total. Counted from a
  \<open>clearHistory\<close>, the counters are exactly the sums of what has been reported since.
  \<open>clearHistory\<close> itself sets both counters to zero and empties the history. The counts
  are integers (a JavaScript number adds integers exactly below \<open>2^53\<close>).
\<close>

theorem token_usage_accumulates:
  assumes "ClearHistory \<notin> set acts"
  shows "tokenUsage (mgr (exec env acts s)) =
           \<lparr>inputTokens = inputTokens (tokenUsage (mgr s)) +
                            sum_list (map inputTokens (observed env acts s)),
            outputTokens = outputTokens (tokenUsage (mgr s)) +
                             sum_list (map outputTokens (observed env acts s))\<rparr> \<and>
         tokenUsageChanged (mgr (exec env acts s)) =
           tokenUsageChanged (mgr s) @ runningTotals (tokenUsage (mgr s)) (observed env acts s) \<and>
         tokenUsage (mgr (exec env (ClearHistory # acts) s)) =
           \<lparr>inputTokens = sum_list (map inputTokens (observed env acts (step env ClearHistory s))),
            outputTokens = sum_list (map outputTokens (observed env acts (step env ClearHistory s)))\<rparr> \<and>
         tokenUsage (mgr (step env ClearHistory s)) = \<lparr>inputTokens = 0, outputTokens = 0\<rparr> \<and>
         history (mgr (step env ClearHistory s)) = []"
proof -
  have z: "tokenUsage (mgr (step env ClearHistory s)) = \<lparr>inputTokens = 0, outputTokens = 0\<rparr>"
          "history (mgr (step env ClearHistory s)) = []"
    by (simp_all add: clearHistory_def zeroUsage_def)
  have "tokenUsage (mgr (exec env acts (step env ClearHistory s))) =
           \<lparr>inputTokens = sum_list (map inputTokens (observed env acts (step env ClearHistory s))),
            outputTokens = sum_list (map outputTokens (observed env acts (step env ClearHistory s)))\<rparr>"
    using exec_usage[OF assms, of env "step env ClearHistory s"] by (simp only: z) simp
  then show ?thesis
    using exec_usage[OF assms, of env s] z by (simp del: step.simps)
qed

theorem token_usage_accumulates_witness:
  "ClearHistory \<notin> set demoTurns \<and>
   tokenUsage (mgr (exec demoEnv demoTurns demoReady)) = \<lparr>inputTokens = 22, outputTokens = 3\<rparr> \<and>
   tokenUsageChanged (mgr (exec demoEnv demoTurns demoReady)) =
     [\<lparr>inputTokens = 10, outputTokens = 2\<rparr>, \<lparr>inputTokens = 22, outputTokens = 3\<rparr>]"
proof -
  have h: "ClearHistory \<notin> set demoTurns"
    by (simp add: demoTurns_def)
  have r: "tokenUsage (mgr demoReady) = \<lparr>inputTokens = 0, outputTokens = 0\<rparr>"
          "tokenUsageChanged (mgr demoReady) = []"
    by (simp_all add: demo_defs model_defs)
  show ?thesis
    using token_usage_accumulates[OF h, of demoEnv demoReady] h
    by (simp only: demoTurns_observed r) (simp add: plusUsage_def)
qed

subsection \<open>Single and grouped approval requests\<close>

lemma taggedWith_emit [simp]: "taggedWith g (emit e m) k = taggedWith g m k"
  by (simp add: taggedWith_def)

lemma registerGrouped_keeps_tag:
  "taggedWith g m k \<Longrightarrow> taggedWith g (snd (registerGrouped env g is m)) k"
proof (induction "is" arbitrary: m)
  case Nil
  then show ?case by simp
next
  case (Cons i "is")
  let ?m1 = "m\<lparr>draws := Suc (draws m),
                 pendingApprovals :=
                   AList.update (''int-'' @ stamp env (draws m))
                     \<lparr>interruption = i, approved = None, groupId = Some g\<rparr>
                     (pendingApprovals m)\<rparr>"
  have "taggedWith g ?m1 k"
    using Cons.prems by (simp add: taggedWith_def update_conv')
  from Cons.IH[OF this] show ?case
    by (simp_all add: Let_def case_prod_unfold)
qed

lemma registerGrouped_fst:
  "fst (registerGrouped env g is m) = map (approvalEntry env) (enumerate (draws m) is)"
  by (induction "is" arbitrary: m) (simp_all add: Let_def approvalEntry_def case_prod_unfold)

lemma registerGrouped_events:
  "agentEvent (snd (registerGrouped env g is m)) = agentEvent m"
  by (induction "is" arbitrary: m) (simp_all add: Let_def case_prod_unfold)

lemma registerGrouped_pending:
  "is \<noteq> [] \<or> pendingApprovals m \<noteq> [] \<Longrightarrow>
   pendingApprovals (snd (registerGrouped env g is m)) \<noteq> []"
  by (induction "is" arbitrary: m) (simp_all add: Let_def update_not_Nil case_prod_unfold)

lemma registerGrouped_tags:
  "e \<in> set (fst (registerGrouped env g is m)) \<Longrightarrow>
   taggedWith g (snd (registerGrouped env g is m)) (fst e)"
proof (induction "is" arbitrary: m)
  case Nil
  then show ?case by simp
next
  case (Cons i "is")
  let ?k = "''int-'' @ stamp env (draws m)"
  let ?m1 = "m\<lparr>draws := Suc (draws m),
                 pendingApprovals :=
                   AList.update ?k
                     \<lparr>interruption = i, approved = None, groupId = Some g\<rparr>
                     (pendingApprovals m)\<rparr>"
  have t: "taggedWith g ?m1 ?k" by (simp add: taggedWith_def update_conv')
  show ?case
    using Cons.IH[of ?m1] registerGrouped_keeps_tag[OF t, of env "is"] Cons.prems
    by (auto simp: Let_def case_prod_unfold)
qed

lemma single_settle:
  "r_interruptions res = [i] \<Longrightarrow>
   gr_settle env res maxTurns m =
     (handleSingleToolApproval env i (m\<lparr>interruptedState := Some res\<rparr>), Polling res maxTurns)"
  by (simp add: gr_settle_def requestApproval_def gr_poll_def handleSingleToolApproval_def
        Let_def update_not_Nil)

lemma grouped_settle:
  "length (r_interruptions res) > 1 \<Longrightarrow>
   gr_settle env res maxTurns m =
     (handleGroupedToolApprovals env (r_interruptions res) (m\<lparr>interruptedState := Some res\<rparr>),
      Polling res maxTurns)"
proof -
  assume k: "length (r_interruptions res) > 1"
  then have ne: "r_interruptions res \<noteq> []" by auto
  have "pendingApprovals (handleGroupedToolApprovals env (r_interruptions res)
           (m\<lparr>interruptedState := Some res\<rparr>)) \<noteq> []"
    using registerGrouped_pending[of "r_interruptions res" _ env] ne
    by (simp add: handleGroupedToolApprovals_def Let_def case_prod_unfold)
  then show ?thesis
    using k ne by (simp add: gr_settle_def requestApproval_def gr_poll_def)
qed

text \<open>
  Claim C3. When the stream of a run has ended and the result holds exactly one
  interruption, \<open>generateResponse\<close> emits exactly one event, a \<open>tool_approval_required\<close>
  (and no \<open>grouped_approval_required\<close>), and waits. When the result holds more than one
  interruption, it emits exactly one event, a \<open>grouped_approval_required\<close> whose list has
  one entry (interruption id, tool name, pretty-printed input) per interruption, in
  order, and waits; the group id is built from the next identifier drawn, and the pending
  record of every listed interruption id carries that group id.
\<close>

theorem approval_request_shape:
  "(r_interruptions res = [i] \<longrightarrow>
      snd (gr_settle env res maxTurns m) = Polling res maxTurns \<and>
      agentEvent (fst (gr_settle env res maxTurns m)) =
        agentEvent m @
        [ToolApprovalRequired (''int-'' @ stamp env (draws m))
           (or_else (raw_name i) ''Unknown Tool'')
           (formatToolInput env (or_else (raw_arguments i) ''{}''))
           (if raw_type i = ''function_call'' then Some (raw_callId i) else None)]) \<and>
   (length (r_interruptions res) > 1 \<longrightarrow>
      snd (gr_settle env res maxTurns m) = Polling res maxTurns \<and>
      agentEvent (fst (gr_settle env res maxTurns m)) =
        agentEvent m @
        [GroupedApprovalRequired (''group-'' @ stamp env (draws m))
           (map (approvalEntry env) (enumerate (Suc (draws m)) (r_interruptions res)))] \<and>
      (\<forall>e \<in> set (map (approvalEntry env) (enumerate (Suc (draws m)) (r_interruptions res))).
         taggedWith (''group-'' @ stamp env (draws m)) (fst (gr_settle env res maxTurns m)) (fst e)))"
proof (intro conjI impI)
  assume one: "r_interruptions res = [i]"
  show "snd (gr_settle env res maxTurns m) = Polling res maxTurns"
    by (simp add: single_settle[OF one])
  show "agentEvent (fst (gr_settle env res maxTurns m)) =
        agentEvent m @
        [ToolApprovalRequired (''int-'' @ stamp env (draws m))
           (or_else (raw_name i) ''Unknown Tool'')
           (formatToolInput env (or_else (raw_arguments i) ''{}''))
           (if raw_type i = ''function_call'' then Some (raw_callId i) else None)]"
    by (simp add: single_settle[OF one] handleSingleToolApproval_def Let_def)
next
  assume many: "length (r_interruptions res) > 1"
  let ?m0 = "m\<lparr>interruptedState := Some res, draws := Suc (draws m)\<rparr>"
  let ?g = "''group-'' @ stamp env (draws m)"
  let ?r = "registerGrouped env ?g (r_interruptions res) ?m0"
  have m': "fst (gr_settle env res maxTurns m) =
              emit (GroupedApprovalRequired ?g (fst ?r)) (snd ?r)"
    by (simp add: grouped_settle[OF many] handleGroupedToolApprovals_def Let_def case_prod_unfold)
  have f: "fst ?r = map (approvalEntry env) (enumerate (Suc (draws m)) (r_interruptions res))"
    using registerGrouped_fst[of env ?g "r_interruptions res" ?m0] by simp
  show "snd (gr_settle env res maxTurns m) = Polling res maxTurns"
    by (simp add: grouped_settle[OF many])
  show "agentEvent (fst (gr_settle env res maxTurns m)) =
        agentEvent m @
        [GroupedApprovalRequired ?g
           (map (approvalEntry env) (enumerate (Suc (draws m)) (r_interruptions res)))]"
    unfolding m' f[symmetric] by (simp add: registerGrouped_events)
  show "\<forall>e \<in> set (map (approvalEntry env) (enumerate (Suc (draws m)) (r_interruptions res))).
         taggedWith ?g (fst (gr_settle env res maxTurns m)) (fst e)"
    unfolding m' f[symmetric] using registerGrouped_tags[of _ env ?g "r_interruptions res" ?m0]
    by simp
qed

theorem approval_request_shape_witness:
  "r_interruptions demoResultA = [demoItem1] \<and>
   agentEvent (fst (gr_settle demoEnv demoResultA 25 (mgr demoReady))) =
     [ToolApprovalRequired ''int-7'' ''list_files'' ''{}'' (Some ''call-1'')] \<and>
   length (r_interruptions demoResultG) > 1 \<and>
   agentEvent (fst (gr_settle demoEnv demoResultG 25 (mgr demoReady))) =
     [GroupedApprovalRequired ''group-7''
        [(''int-77'', ''list_files'', ''{}''), (''int-777'', ''Unknown Tool'', ''{}'')]] \<and>
   taggedWith ''group-7'' (fst (gr_settle demoEnv demoResultG 25 (mgr demoReady))) ''int-77'' \<and>
   taggedWith ''group-7'' (fst (gr_settle demoEnv demoResultG 25 (mgr demoReady))) ''int-777''"
proof -
  have one: "r_interruptions demoResultA = [demoItem1]"
    by (simp add: demoResultA_def)
  have two: "r_interruptions demoResultG = [demoItem1, demoItem2]"
    by (simp add: demoResultG_def)
  have st: "stamp demoEnv = demoStamp" "prettyJson demoEnv = (\<lambda>s. None)"
    by (simp_all add: demoEnv_def)
  show ?thesis
    using approval_request_shape[of demoResultA demoItem1 demoEnv 25 "mgr demoReady"]
          approval_request_shape[of demoResultG demoItem1 demoEnv 25 "mgr demoReady"]
    by (simp add: one two st demoReady_eval approvalEntry_def demoStamp_def demoItem1_def
          demoItem2_def or_else_def formatToolInput_def)
qed

subsection \<open>The message events of a stream\<close>

lemma handleToolCallStart_events:
  "\<exists>n. agentEvent (handleToolCallStart env me m) = agentEvent m @ n \<and>
       (\<forall>cur acc es. conforms cur acc (n @ es) = conforms cur acc es) \<and> startIds n = [] \<and>
       draws (handleToolCallStart env me m) = draws m"
  by (cases me) (simp_all)

lemma processEvent_conforms:
  assumes "processEvent env e l m = (l', m')"
  shows "\<exists>n. agentEvent m' = agentEvent m @ n \<and>
             (\<forall>es. conforms (currentMessageId l') (fullResponse l') es \<longrightarrow>
                   conforms (currentMessageId l) (fullResponse l) (n @ es)) \<and>
             startIds n = map (\<lambda>k. ''msg-'' @ stamp env k) [draws m..<draws m'] \<and>
             draws m \<le> draws m'"
  using assms
  apply (cases "(env, e, l, m)" rule: processEvent.cases)
        apply (auto simp: Let_def addUsage_def handleToolOutput_def split: option.splits if_splits)
  subgoal for me using handleToolCallStart_events[of env me m] by auto
  done


lemma processEvents_conforms:
  "\<exists>n. agentEvent (snd (processEvents env evs l m)) = agentEvent m @ n \<and>
       conforms (currentMessageId l) (fullResponse l) n \<and>
       startIds n = map (\<lambda>k. ''msg-'' @ stamp env k) [draws m..<draws (snd (processEvents env evs l m))] \<and>
       draws m \<le> draws (snd (processEvents env evs l m))"
proof (induction evs arbitrary: l m)
  case Nil
  show ?case by simp
next
  case (Cons e es)
  obtain l1 m1 where st: "processEvent env e l m = (l1, m1)"
    by (cases "processEvent env e l m")
  from processEvent_conforms[OF st] obtain n1 where
    n1: "agentEvent m1 = agentEvent m @ n1"
        "\<forall>es. conforms (currentMessageId l1) (fullResponse l1) es \<longrightarrow>
               conforms (currentMessageId l) (fullResponse l) (n1 @ es)"
        "startIds n1 = map (\<lambda>k. ''msg-'' @ stamp env k) [draws m..<draws m1]"
        "draws m \<le> draws m1"
    by blast
  let ?m2 = "snd (processEvents env es l1 m1)"
  from Cons.IH[of l1 m1] obtain n2 where
    n2: "agentEvent ?m2 = agentEvent m1 @ n2"
        "conforms (currentMessageId l1) (fullResponse l1) n2"
        "startIds n2 = map (\<lambda>k. ''msg-'' @ stamp env k) [draws m1..<draws ?m2]"
        "draws m1 \<le> draws ?m2"
    by blast
  have app: "startIds (n1 @ n2) = startIds n1 @ startIds n2" for n1 n2
    by (induction n1 rule: startIds.induct) simp_all
  have upt: "[draws m..<draws ?m2] = [draws m..<draws m1] @ [draws m1..<draws ?m2]"
    using n1(4) n2(4) by (metis le_Suc_ex upt_add_eq_append)
  show ?case
    apply (rule exI[of _ "n1 @ n2"])
    using n1 n2 st by (simp add: app upt)
qed

lemma emitted_append:
  "agentEvent (snd (processRunResult env res m)) = agentEvent m @ emitted env res m"
  using processEvents_conforms[of env "r_events res" initialLocals m]
  by (auto simp: emitted_def processRunResult_def)

lemma emitted_conforms:
  "conforms None [] (emitted env res m)"
  using processEvents_conforms[of env "r_events res" initialLocals m]
  by (auto simp: emitted_def processRunResult_def initialLocals_def)

lemma emitted_startIds:
  "inj (stamp env) \<Longrightarrow> distinct (startIds (emitted env res m))"
proof -
  assume i: "inj (stamp env)"
  have "inj_on (\<lambda>k. ''msg-'' @ stamp env k) A" for A
    using i by (auto simp: inj_on_def)
  then show ?thesis
    using processEvents_conforms[of env "r_events res" initialLocals m]
    by (auto simp: emitted_def processRunResult_def distinct_map)
qed


lemma fragments_append: "fragments mid (a @ b) = fragments mid a @ fragments mid b"
  by (induction mid a rule: fragments.induct) simp_all

lemma startIds_append: "startIds (a @ b) = startIds a @ startIds b"
  by (induction a rule: startIds.induct) simp_all

lemma startIds_set: "(m \<in> set (startIds es)) = (MessageStart m \<in> set es)"
  by (induction es rule: startIds.induct) auto

text \<open>A chunk or a completion needs an open message.\<close>

lemma conforms_needs_start:
  "conforms cur acc (pre @ e # post) \<Longrightarrow>
   e = MessageChunk mid c f \<or> e = MessageComplete mid c \<Longrightarrow>
   cur = Some mid \<or> MessageStart mid \<in> set pre"
  by (induction cur acc pre rule: conforms.induct) auto

lemma conforms_after_complete:
  "conforms cur acc (pre @ MessageComplete mid c # rest) \<Longrightarrow> \<exists>acc'. conforms None acc' rest"
  by (induction cur acc pre rule: conforms.induct) auto

lemma conforms_no_fragments:
  "conforms cur acc es \<Longrightarrow> cur \<noteq> Some mid \<Longrightarrow> MessageStart mid \<notin> set es \<Longrightarrow>
   fragments mid es = []"
  by (induction cur acc es rule: conforms.induct) auto

lemma conforms_chunk:
  "conforms cur acc (pre @ MessageChunk mid c f # post) \<Longrightarrow>
   distinct (startIds (pre @ MessageChunk mid c f # post)) \<Longrightarrow>
   (\<forall>m0. cur = Some m0 \<longrightarrow> MessageStart m0 \<notin> set (pre @ MessageChunk mid c f # post)) \<Longrightarrow>
   (if MessageStart mid \<in> set pre then f = fragments mid (pre @ [MessageChunk mid c f])
    else cur = Some mid \<and> f = acc @ fragments mid (pre @ [MessageChunk mid c f]))"
  by (induction cur acc pre rule: conforms.induct)
     (auto simp: startIds_set startIds_append split: if_splits)

lemma conforms_complete:
  "conforms cur acc (pre @ MessageComplete mid content # post) \<Longrightarrow>
   distinct (startIds (pre @ MessageComplete mid content # post)) \<Longrightarrow>
   (\<forall>m0. cur = Some m0 \<longrightarrow> MessageStart m0 \<notin> set (pre @ MessageComplete mid content # post)) \<Longrightarrow>
   (if MessageStart mid \<in> set pre then content = fragments mid pre
    else cur = Some mid \<and> content = acc @ fragments mid pre)"
  by (induction cur acc pre rule: conforms.induct)
     (auto simp: startIds_set startIds_append split: if_splits)


lemma processEvents_append:
  "processEvents env (a @ b) l m =
     processEvents env b (fst (processEvents env a l m)) (snd (processEvents env a l m))"
  by (induction a arbitrary: l m) (simp_all add: case_prod_unfold)

lemma processEvents_not_started:
  "RawModelStreamEvent ResponseStarted \<notin> set pre \<Longrightarrow> currentMessageId l = None \<Longrightarrow>
   currentMessageId (fst (processEvents env pre l m)) = None"
proof (induction pre arbitrary: l m)
  case Nil
  then show ?case by simp
next
  case (Cons e es)
  have "currentMessageId (fst (processEvent env e l m)) = None"
    using Cons.prems
    by (cases "(env, e, l, m)" rule: processEvent.cases) (auto split: option.splits)
  then show ?case
    using Cons.IH[of "fst (processEvent env e l m)" "snd (processEvent env e l m)"] Cons.prems
    by (simp add: case_prod_unfold)
qed

text \<open>The events of one call of \<open>_processRunResult\<close>, taken alone.\<close>

lemma one_stream_chunks_add_up:
  assumes "inj (stamp env)"
  shows "(emitted env res m = pre @ MessageChunk mid c f # post \<longrightarrow>
            f = fragments mid (pre @ [MessageChunk mid c f])) \<and>
         (emitted env res m = pre @ MessageComplete mid content # post \<longrightarrow>
            content = fragments mid (emitted env res m))"
proof (intro conjI impI)
  assume a: "emitted env res m = pre @ MessageChunk mid c f # post"
  have c: "conforms None [] (pre @ MessageChunk mid c f # post)"
    using emitted_conforms[of env res m] a by simp
  have d: "distinct (startIds (pre @ MessageChunk mid c f # post))"
    using emitted_startIds[OF assms, of res m] a by simp
  from conforms_chunk[OF c d] show "f = fragments mid (pre @ [MessageChunk mid c f])"
    by (simp split: if_splits)
next
  assume a: "emitted env res m = pre @ MessageComplete mid content # post"
  have c: "conforms None [] (pre @ MessageComplete mid content # post)"
    using emitted_conforms[of env res m] a by simp
  have d: "distinct (startIds (pre @ MessageComplete mid content # post))"
    using emitted_startIds[OF assms, of res m] a by simp
  from conforms_complete[OF c d] have p: "MessageStart mid \<in> set pre" "content = fragments mid pre"
    by (simp_all split: if_splits)
  from conforms_after_complete[OF c] obtain acc' where c': "conforms None acc' post" by blast
  have "MessageStart mid \<notin> set post"
    using d p(1) by (auto simp: startIds_append startIds_set[symmetric])
  from conforms_no_fragments[OF c' _ this] have "fragments mid post = []" by simp
  then show "content = fragments mid (emitted env res m)"
    using p(2) by (simp add: a fragments_append)
qed

lemma demoStamp_inj: "inj (stamp demoEnv)"
  by (simp add: demoEnv_def demoStamp_def inj_def)

lemma demo_emitted:
  "emitted demoEnv demoResultA (mgr demoReady) =
     [MessageStart ''msg-7'', MessageChunk ''msg-7'' ''Hel'' ''Hel'',
      MessageChunk ''msg-7'' ''lo'' ''Hello'', MessageComplete ''msg-7'' ''Hello'',
      ToolCallStart ''call-1'' ''list_files'' ''{}'']"
  by (simp add: emitted_def processRunResult_def demoReady_eval demoResultA_def demoEnv_def
        demoStamp_def initialLocals_def emit_def addUsage_def formatToolInput_def Let_def)

subsection \<open>What each piece of code leaves alone\<close>

lemma handleToolCallStart_frame [simp]:
  "pendingApprovals (handleToolCallStart env me m) = pendingApprovals m"
  "history (handleToolCallStart env me m) = history m"
  "runCalls (handleToolCallStart env me m) = runCalls m"
  by (cases me; simp)+

lemma handleToolOutput_frame [simp]:
  "pendingApprovals (handleToolOutput i m) = pendingApprovals m"
  "history (handleToolOutput i m) = history m"
  "runCalls (handleToolOutput i m) = runCalls m"
  by (simp_all add: handleToolOutput_def Let_def)


lemma verdict_frame [simp]:
  "agentEvent (applyVerdict i v m) = agentEvent m"
  "runCalls (applyVerdict i v m) = runCalls m"
  "history (applyVerdict i v m) = history m"
  "pendingApprovals (applyVerdict i v m) = pendingApprovals m"
  "agentEvent (deletePending k m) = agentEvent m"
  "runCalls (deletePending k m) = runCalls m"
  "history (deletePending k m) = history m"
  "pendingApprovals (deletePending k m) = AList.delete k (pendingApprovals m)"
  "agentEvent (warn w m) = agentEvent m"
  "runCalls (warn w m) = runCalls m"
  "history (warn w m) = history m"
  "pendingApprovals (warn w m) = pendingApprovals m"
  by (simp_all add: applyVerdict_def deletePending_def warn_def split: option.splits)

lemma resolveGrouped_frame:
  "agentEvent (resolveGrouped v g ids m) = agentEvent m \<and>
   runCalls (resolveGrouped v g ids m) = runCalls m \<and>
   history (resolveGrouped v g ids m) = history m"
  by (induction ids arbitrary: m) (simp_all split: option.splits)











lemma initializeAgent_settle_frame [simp]:
  "pendingApprovals (initializeAgent_settle env m) = pendingApprovals m"
  "history (initializeAgent_settle env m) = history m"
  "runCalls (initializeAgent_settle env m) = runCalls m"
  "agentEvent (initializeAgent_settle env m) = agentEvent m"
  by (simp_all add: initializeAgent_settle_def warn_def split: sum.splits)




subsection \<open>Waiting for the verdicts\<close>









subsection \<open>A run that fails\<close>









lemma gr_catch_snd [simp]: "snd (gr_catch e m) = Settled (Some e)"
  by (simp add: gr_catch_def)

lemma raisedBy_catch [simp]: "raisedBy env (fst (gr_catch e' m)) j e = raisedBy env m j e"
  by (simp add: raisedBy_def gr_catch_def)











subsection \<open>Configuration errors\<close>








subsection \<open>Concurrent calls\<close>

lemma gr_stream_fields:
  "history (fst (gr_stream mt (callRunner env inp x m))) = history m"
  "runCalls (fst (gr_stream mt (callRunner env inp x m))) =
     runCalls m @ [\<lparr>rc_runner = runner m, rc_input = inp, rc_maxTurns = x\<rparr>]"
  by (simp_all add: gr_stream_def callRunner_def gr_catch_def split: sum.splits)

text \<open>
  Claim C8, as amended. \<open>generateResponse\<close> has no active-run guard: whatever calls are
  suspended, a new call with an agent at hand appends its user message to the shared
  history and invokes the runner in the same step, as a new task beside the others; it
  is neither rejected nor queued. The one guard of the class is the flag
  \<open>_isInitializing\<close>: a call of \<open>initializeAgent\<close> made while an initialization is in
  progress returns at once and changes nothing.
\<close>

theorem second_call_starts_at_once:
  "(agent (mgr s) \<noteq> None \<longrightarrow>
      history (mgr (step env (CallGenerateResponse message) s)) = history (mgr s) @ [User message] \<and>
      runCalls (mgr (step env (CallGenerateResponse message) s)) =
        runCalls (mgr s) @
        [\<lparr>rc_runner = runner (mgr s),
          rc_input = FromHistory (history (mgr s) @ [User message]),
          rc_maxTurns = (if shouldUseTools env (mgr s) then Some (maxTurnsOf env (mgr s)) else None)\<rparr>] \<and>
      length (tasks (step env (CallGenerateResponse message) s)) = Suc (length (tasks s)) \<and>
      take (length (tasks s)) (tasks (step env (CallGenerateResponse message) s)) = tasks s) \<and>
   (isInitializing (mgr s) \<longrightarrow>
      step env CallInitializeAgent s = s\<lparr>tasks := tasks s @ [Settled None]\<rparr>)"
proof (intro conjI impI)
  assume a: "agent (mgr s) \<noteq> None"
  let ?m1 = "(mgr s)\<lparr>controller := True\<rparr>"
  have e: "gr_enter env message (mgr s) = gr_run env message ?m1"
    using a by (auto simp: gr_enter_def Let_def)
  have "supportsToolCallingNow env ?m1 = supportsToolCallingNow env (mgr s)"
    by (simp add: supportsToolCallingNow_def)
  then have u: "shouldUseTools env ?m1 = shouldUseTools env (mgr s)"
    "maxTurnsOf env (?m1\<lparr>history := history (mgr s) @ [User message]\<rparr>) = maxTurnsOf env (mgr s)"
    by (simp_all add: shouldUseTools_def maxTurnsOf_def split: option.splits)
  show "history (mgr (step env (CallGenerateResponse message) s)) = history (mgr s) @ [User message]"
    by (simp add: e case_prod_unfold gr_run_def Let_def gr_stream_fields)
  show "runCalls (mgr (step env (CallGenerateResponse message) s)) =
        runCalls (mgr s) @
        [\<lparr>rc_runner = runner (mgr s),
          rc_input = FromHistory (history (mgr s) @ [User message]),
          rc_maxTurns = (if shouldUseTools env (mgr s) then Some (maxTurnsOf env (mgr s)) else None)\<rparr>]"
    using u by (simp add: e case_prod_unfold gr_run_def Let_def gr_stream_fields)
  show "length (tasks (step env (CallGenerateResponse message) s)) = Suc (length (tasks s))"
    by (simp add: case_prod_unfold)
  show "take (length (tasks s)) (tasks (step env (CallGenerateResponse message) s)) = tasks s"
    by (simp add: case_prod_unfold)
next
  assume "isInitializing (mgr s)"
  then show "step env CallInitializeAgent s = s\<lparr>tasks := tasks s @ [Settled None]\<rparr>"
    by (cases s) (simp add: initializeAgent_enter_def)
qed

lemma demoStreaming_eval:
  "agent (mgr demoStreaming) \<noteq> None"
  "length (tasks demoStreaming) = 2"
  "active (tasks demoStreaming ! 1)"
  "history (mgr demoStreaming) = [User ''first'']"
  "runner (mgr demoStreaming) = 0"
  "\<not> shouldUseTools demoEnv (mgr demoStreaming)"
  "runCalls (mgr demoStreaming) =
     [\<lparr>rc_runner = 0, rc_input = FromHistory [User ''first''], rc_maxTurns = None\<rparr>]"
  by (simp_all add: demoStreaming_def demo_defs model_defs)

theorem second_call_starts_at_once_witness:
  "agent (mgr demoStreaming) \<noteq> None \<and> active (tasks demoStreaming ! 1) \<and>
   history (mgr (step demoEnv (CallGenerateResponse ''second'') demoStreaming)) =
     [User ''first'', User ''second''] \<and>
   runCalls (mgr (step demoEnv (CallGenerateResponse ''second'') demoStreaming)) =
     [\<lparr>rc_runner = 0, rc_input = FromHistory [User ''first''], rc_maxTurns = None\<rparr>,
      \<lparr>rc_runner = 0, rc_input = FromHistory [User ''first'', User ''second''],
       rc_maxTurns = None\<rparr>] \<and>
   isInitializing (mgr (newAgentManager demoEnv ''p1'' None)) \<and>
   step demoEnv CallInitializeAgent (newAgentManager demoEnv ''p1'' None) =
     (newAgentManager demoEnv ''p1'' None)
       \<lparr>tasks := tasks (newAgentManager demoEnv ''p1'' None) @ [Settled None]\<rparr>"
proof -
  have i: "isInitializing (mgr (newAgentManager demoEnv ''p1'' None))"
    by (simp add: demo_defs model_defs)
  from second_call_starts_at_once[where s = demoStreaming and env = demoEnv and message = "''second''"]
       second_call_starts_at_once[where s = "newAgentManager demoEnv ''p1'' None" and env = demoEnv]
       i demoStreaming_eval
  show ?thesis by (simp del: step.simps)
qed

text \<open>
  Claim C8, as stated, fails: two calls of \<open>generateResponse\<close> made one after the other
  are both active, the runner has been invoked for each, and the events of their two
  streams come out interleaved.
\<close>

theorem concurrent_calls_interleave_counterexample:
  "active (tasks (exec demoEnv [CallGenerateResponse ''first'', CallGenerateResponse ''second'']
                    demoReady) ! 1) \<and>
   active (tasks (exec demoEnv [CallGenerateResponse ''first'', CallGenerateResponse ''second'']
                    demoReady) ! 2) \<and>
   runCalls (mgr (exec demoEnv [CallGenerateResponse ''first'', CallGenerateResponse ''second'']
                    demoReady)) =
     [\<lparr>rc_runner = 0, rc_input = FromHistory [User ''first''], rc_maxTurns = None\<rparr>,
      \<lparr>rc_runner = 0, rc_input = FromHistory [User ''first'', User ''second''],
       rc_maxTurns = None\<rparr>] \<and>
   agentEvent (mgr (exec demoEnv
      [CallGenerateResponse ''first'', CallGenerateResponse ''second'',
       Resume 1, Resume 1, Resume 2, Resume 2, Resume 1, Resume 2] demoReady)) =
     [MessageStart ''msg-7'',
      ToolCallComplete ''call-1'' ''list_files'' ''a.txt'' False,
      MessageStart ''msg-77'',
      MessageChunk ''msg-7'' ''Hel'' ''Hel'',
      MessageChunk ''msg-77'' ''ok'' ''ok'']"
  by (simp add: demo_defs model_defs)

subsection \<open>The chunks of a message over a whole execution\<close>

lemma snoc_split:
  "tr @ [e] = pre @ x # post \<Longrightarrow>
   (pre = tr \<and> x = e \<and> post = []) \<or> (\<exists>post'. tr = pre @ x # post' \<and> post = post' @ [e])"
  by (cases post rule: rev_cases) auto

lemma fragments_quiet: "mentions e = None \<Longrightarrow> fragments mid [e] = []"
  by (cases e) simp_all

lemma goodTrace_snoc:
  assumes "goodTrace tr"
    and "\<And>mid c f. e = MessageChunk mid c f \<Longrightarrow>
           f = fragments mid tr @ c \<and> (\<forall>content. MessageComplete mid content \<notin> set tr)"
    and "\<And>mid content. e = MessageComplete mid content \<Longrightarrow> content = fragments mid tr"
  shows "goodTrace (tr @ [e])"
proof -
  have A: "f = fragments mid pre @ c"
    if d: "tr @ [e] = pre @ MessageChunk mid c f # post" for pre mid c f post
    using snoc_split[OF d]
  proof (rule disjE)
    assume "pre = tr \<and> MessageChunk mid c f = e \<and> post = []"
    with assms(2)[of mid c f] show ?thesis by auto
  next
    assume "\<exists>post'. tr = pre @ MessageChunk mid c f # post' \<and> post = post' @ [e]"
    with assms(1) show ?thesis unfolding goodTrace_def by blast
  qed
  have B: "content = fragments mid pre \<and> fragments mid post = [] \<and>
           (\<forall>c f. MessageChunk mid c f \<notin> set post)"
    if d: "tr @ [e] = pre @ MessageComplete mid content # post" for pre mid content post
    using snoc_split[OF d]
  proof (rule disjE)
    assume "pre = tr \<and> MessageComplete mid content = e \<and> post = []"
    with assms(3)[of mid content] show ?thesis by auto
  next
    assume "\<exists>post'. tr = pre @ MessageComplete mid content # post' \<and> post = post' @ [e]"
    then obtain post' where p: "tr = pre @ MessageComplete mid content # post'" "post = post' @ [e]"
      by blast
    from assms(1) p(1) have o: "content = fragments mid pre" "fragments mid post' = []"
      "\<forall>c f. MessageChunk mid c f \<notin> set post'"
      unfolding goodTrace_def by blast+
    have n: "e \<noteq> MessageChunk mid c f" for c f
      using assms(2)[of mid c f] p(1) by auto
    then have "fragments mid [e] = []"
      by (cases e) auto
    with o p(2) n show ?thesis by (auto simp: fragments_append)
  qed
  show ?thesis
    unfolding goodTrace_def using A B by blast
qed

lemma goodTrace_quiet:
  "goodTrace tr \<Longrightarrow> \<forall>e \<in> set evs. mentions e = None \<Longrightarrow> goodTrace (tr @ evs)"
proof (induction evs rule: rev_induct)
  case Nil
  then show ?case by simp
next
  case (snoc e evs)
  then have g: "goodTrace (tr @ evs)" and q: "mentions e = None" by simp_all
  have "goodTrace ((tr @ evs) @ [e])"
    using q by (intro goodTrace_snoc[OF g]) auto
  then show ?case by simp
qed

lemma fragments_quiet_list:
  "\<forall>e \<in> set evs. mentions e = None \<Longrightarrow> fragments mid (tr @ evs) = fragments mid tr"
  by (induction evs rule: rev_induct)
     (simp_all add: fragments_append fragments_quiet flip: append_assoc)

lemma drawn_mono: "d \<le> d' \<Longrightarrow> drawn env d \<subseteq> drawn env d'"
  by (auto simp: drawn_def)


lemma quiet_not_complete:
  "\<forall>e \<in> set evs. mentions e = None \<Longrightarrow> MessageComplete mid c \<notin> set evs"
  by auto

lemma sinvD:
  assumes "sinv env tr d os"
  shows "goodTrace tr"
    and "\<And>e m. e \<in> set tr \<Longrightarrow> mentions e = Some m \<Longrightarrow> m \<in> drawn env d"
    and "\<And>i mid full. i < length os \<Longrightarrow> os ! i = Some (mid, full) \<Longrightarrow>
           mid \<in> drawn env d \<and> full = fragments mid tr \<and> (\<forall>c. MessageComplete mid c \<notin> set tr)"
    and "\<And>i j a fa b fb. i < length os \<Longrightarrow> j < length os \<Longrightarrow> i \<noteq> j \<Longrightarrow>
           os ! i = Some (a, fa) \<Longrightarrow> os ! j = Some (b, fb) \<Longrightarrow> a \<noteq> b"
  using assms unfolding sinv_def by blast+

lemma sinvI:
  assumes "goodTrace tr"
    and "\<And>e m. e \<in> set tr \<Longrightarrow> mentions e = Some m \<Longrightarrow> m \<in> drawn env d"
    and "\<And>i mid full. i < length os \<Longrightarrow> os ! i = Some (mid, full) \<Longrightarrow>
           mid \<in> drawn env d \<and> full = fragments mid tr \<and> (\<forall>c. MessageComplete mid c \<notin> set tr)"
    and "\<And>i j a fa b fb. i < length os \<Longrightarrow> j < length os \<Longrightarrow> i \<noteq> j \<Longrightarrow>
           os ! i = Some (a, fa) \<Longrightarrow> os ! j = Some (b, fb) \<Longrightarrow> a \<noteq> b"
  shows "sinv env tr d os"
  unfolding sinv_def using assms by blast

lemma sinv_quiet:
  assumes inv: "sinv env tr d os" and q: "\<forall>e \<in> set evs. mentions e = None" and le: "d \<le> d'"
  shows "sinv env (tr @ evs) d' os"
proof (rule sinvI)
  show "goodTrace (tr @ evs)"
    using sinvD(1)[OF inv] q by (rule goodTrace_quiet)
next
  fix e m assume e: "e \<in> set (tr @ evs)" "mentions e = Some m"
  with q have "e \<in> set tr" by auto
  from sinvD(2)[OF inv this e(2)] drawn_mono[OF le, of env] show "m \<in> drawn env d'" by blast
next
  fix i mid full assume i: "i < length os" "os ! i = Some (mid, full)"
  from sinvD(3)[OF inv i] have o: "mid \<in> drawn env d" "full = fragments mid tr"
    "\<forall>c. MessageComplete mid c \<notin> set tr" by simp_all
  have "mid \<in> drawn env d'" using o(1) drawn_mono[OF le, of env] by blast
  moreover have "full = fragments mid (tr @ evs)"
    using o(2) fragments_quiet_list[OF q] by simp
  moreover have "\<forall>c. MessageComplete mid c \<notin> set (tr @ evs)"
    using o(3) q by auto
  ultimately show "mid \<in> drawn env d' \<and> full = fragments mid (tr @ evs) \<and>
         (\<forall>c. MessageComplete mid c \<notin> set (tr @ evs))" by simp
next
  fix i j a fa b fb
  assume "i < length os" "j < length os" "i \<noteq> j" "os ! i = Some (a, fa)" "os ! j = Some (b, fb)"
  then show "a \<noteq> b" by (rule sinvD(4)[OF inv])
qed

lemma sinv_close:
  assumes inv: "sinv env tr d os"
  shows "sinv env tr d (os[t := None])"
proof (rule sinvI)
  show "goodTrace tr" by (rule sinvD(1)[OF inv])
next
  fix e m assume "e \<in> set tr" "mentions e = Some m"
  then show "m \<in> drawn env d" by (rule sinvD(2)[OF inv])
next
  fix i mid full assume i: "i < length (os[t := None])" "os[t := None] ! i = Some (mid, full)"
  then have "i < length os" "os ! i = Some (mid, full)"
    by (cases "i = t"; simp)+
  then show "mid \<in> drawn env d \<and> full = fragments mid tr \<and> (\<forall>c. MessageComplete mid c \<notin> set tr)"
    by (rule sinvD(3)[OF inv])
next
  fix i j a fa b fb
  assume h: "i < length (os[t := None])" "j < length (os[t := None])" "i \<noteq> j"
    "os[t := None] ! i = Some (a, fa)" "os[t := None] ! j = Some (b, fb)"
  then have "i < length os" "j < length os" "os ! i = Some (a, fa)" "os ! j = Some (b, fb)"
    by (cases "i = t"; cases "j = t"; simp)+
  with h(3) show "a \<noteq> b" using sinvD(4)[OF inv] by blast
qed

lemma sinv_new:
  assumes inv: "sinv env tr d os"
  shows "sinv env tr d (os @ [None])"
proof (rule sinvI)
  show "goodTrace tr" by (rule sinvD(1)[OF inv])
next
  fix e m assume "e \<in> set tr" "mentions e = Some m"
  then show "m \<in> drawn env d" by (rule sinvD(2)[OF inv])
next
  fix i mid full assume i: "i < length (os @ [None])" "(os @ [None]) ! i = Some (mid, full)"
  then have "i < length os" "os ! i = Some (mid, full)"
    by (simp_all add: nth_append split: if_splits)
  then show "mid \<in> drawn env d \<and> full = fragments mid tr \<and> (\<forall>c. MessageComplete mid c \<notin> set tr)"
    by (rule sinvD(3)[OF inv])
next
  fix i j a fa b fb
  assume h: "i < length (os @ [None])" "j < length (os @ [None])" "i \<noteq> j"
    "(os @ [None]) ! i = Some (a, fa)" "(os @ [None]) ! j = Some (b, fb)"
  then have "i < length os" "j < length os" "os ! i = Some (a, fa)" "os ! j = Some (b, fb)"
    by (simp_all add: nth_append split: if_splits)
  with h(3) show "a \<noteq> b" using sinvD(4)[OF inv] by blast
qed


lemma nth_update_Some:
  "i < length (os[t := v]) \<Longrightarrow> os[t := v] ! i = Some x \<Longrightarrow>
   (i = t \<and> v = Some x) \<or> (i \<noteq> t \<and> i < length os \<and> os ! i = Some x)"
  by (cases "i = t") simp_all

lemma no_mention_fragments:
  "\<forall>e \<in> set tr. mentions e \<noteq> Some mid \<Longrightarrow> fragments mid tr = []"
  by (induction mid tr rule: fragments.induct) auto

lemma fresh_id:
  assumes "inj (stamp env)"
  shows "''msg-'' @ stamp env d \<notin> drawn env d"
proof
  assume "''msg-'' @ stamp env d \<in> drawn env d"
  then obtain k where "k < d" "stamp env d = stamp env k"
    by (auto simp: drawn_def)
  with assms show False by (auto dest: injD)
qed

lemma sinv_start:
  assumes i: "inj (stamp env)" and inv: "sinv env tr d os" and t: "t < length os"
  shows "sinv env (tr @ [MessageStart (''msg-'' @ stamp env d)]) (Suc d)
           (os[t := Some (''msg-'' @ stamp env d, [])])"
proof (rule sinvI)
  let ?mid = "''msg-'' @ stamp env d"
  let ?tr = "tr @ [MessageStart ?mid]"
  have fresh: "?mid \<notin> drawn env d" by (rule fresh_id[OF i])
  have unseen: "\<forall>e \<in> set tr. mentions e \<noteq> Some ?mid"
    using sinvD(2)[OF inv] fresh by blast
  have sub: "drawn env d \<subseteq> drawn env (Suc d)" by (rule drawn_mono) simp
  have new: "?mid \<in> drawn env (Suc d)" by (simp add: drawn_def)
  show "goodTrace ?tr"
    by (rule goodTrace_snoc[OF sinvD(1)[OF inv]]) simp_all
  show "m \<in> drawn env (Suc d)" if "e \<in> set ?tr" "mentions e = Some m" for e m
  proof (cases "e \<in> set tr")
    case True
    from sinvD(2)[OF inv True that(2)] sub show ?thesis by blast
  next
    case False
    with that have "m = ?mid" by auto
    with new show ?thesis by simp
  qed
  show "mid \<in> drawn env (Suc d) \<and> full = fragments mid ?tr \<and> (\<forall>c. MessageComplete mid c \<notin> set ?tr)"
    if h: "i < length (os[t := Some (?mid, [])])" "os[t := Some (?mid, [])] ! i = Some (mid, full)"
    for i mid full
    using nth_update_Some[OF h]
  proof (rule disjE)
    assume "i = t \<and> Some (?mid, []) = Some (mid, full)"
    then have e: "mid = ?mid" "full = []" by simp_all
    have "fragments ?mid tr = []" by (rule no_mention_fragments[OF unseen])
    moreover have "\<forall>c. MessageComplete ?mid c \<notin> set tr"
      using unseen by fastforce
    ultimately show ?thesis using e new by (simp add: fragments_append)
  next
    assume "i \<noteq> t \<and> i < length os \<and> os ! i = Some (mid, full)"
    then have "mid \<in> drawn env d \<and> full = fragments mid tr \<and> (\<forall>c. MessageComplete mid c \<notin> set tr)"
      using sinvD(3)[OF inv] by blast
    then show ?thesis using sub by (auto simp: fragments_append)
  qed
  show "a \<noteq> b"
    if h: "i < length (os[t := Some (?mid, [])])" "j < length (os[t := Some (?mid, [])])" "i \<noteq> j"
      "os[t := Some (?mid, [])] ! i = Some (a, fa)" "os[t := Some (?mid, [])] ! j = Some (b, fb)"
    for i j a fa b fb
  proof -
    from nth_update_Some[OF h(1,4)] nth_update_Some[OF h(2,5)] h(3)
    consider "a = ?mid" "j < length os" "os ! j = Some (b, fb)"
      | "b = ?mid" "i < length os" "os ! i = Some (a, fa)"
      | "i < length os" "j < length os" "os ! i = Some (a, fa)" "os ! j = Some (b, fb)"
      by auto
    then show ?thesis
    proof cases
      case 1
      from sinvD(3)[OF inv 1(2,3)] fresh 1(1) show ?thesis by auto
    next
      case 2
      from sinvD(3)[OF inv 2(2,3)] fresh 2(1) show ?thesis by auto
    next
      case 3
      from sinvD(4)[OF inv 3(1,2) h(3) 3(3,4)] show ?thesis .
    qed
  qed
qed

lemma sinv_chunk:
  assumes inv: "sinv env tr d os" and t: "t < length os" and o: "os ! t = Some (mid, full)"
  shows "sinv env (tr @ [MessageChunk mid c (full @ c)]) d (os[t := Some (mid, full @ c)])"
proof (rule sinvI)
  let ?tr = "tr @ [MessageChunk mid c (full @ c)]"
  let ?os = "os[t := Some (mid, full @ c)]"
  from sinvD(3)[OF inv t o] have mine: "mid \<in> drawn env d" "full = fragments mid tr"
    "\<forall>x. MessageComplete mid x \<notin> set tr" by simp_all
  show "goodTrace ?tr"
    by (rule goodTrace_snoc[OF sinvD(1)[OF inv]]) (use mine in simp_all)
  show "m \<in> drawn env d" if "e \<in> set ?tr" "mentions e = Some m" for e m
  proof (cases "e \<in> set tr")
    case True
    from sinvD(2)[OF inv True that(2)] show ?thesis .
  next
    case False
    with that have "m = mid" by auto
    with mine(1) show ?thesis by simp
  qed
  show "mid' \<in> drawn env d \<and> full' = fragments mid' ?tr \<and> (\<forall>x. MessageComplete mid' x \<notin> set ?tr)"
    if h: "i < length ?os" "?os ! i = Some (mid', full')" for i mid' full'
    using nth_update_Some[OF h]
  proof (rule disjE)
    assume "i = t \<and> Some (mid, full @ c) = Some (mid', full')"
    then have "mid' = mid" "full' = full @ c" by simp_all
    then show ?thesis using mine by (simp add: fragments_append)
  next
    assume a: "i \<noteq> t \<and> i < length os \<and> os ! i = Some (mid', full')"
    then have old: "mid' \<in> drawn env d \<and> full' = fragments mid' tr \<and> (\<forall>x. MessageComplete mid' x \<notin> set tr)"
      using sinvD(3)[OF inv] by blast
    have "mid' \<noteq> mid"
      using sinvD(4)[OF inv _ t _ _ o] a by blast
    then show ?thesis using old by (simp add: fragments_append)
  qed
  show "a \<noteq> b"
    if h: "i < length ?os" "j < length ?os" "i \<noteq> j" "?os ! i = Some (a, fa)" "?os ! j = Some (b, fb)"
    for i j a fa b fb
  proof -
    have "\<exists>fa'. i < length os \<and> os ! i = Some (a, fa')"
      using nth_update_Some[OF h(1,4)] t o by auto
    moreover have "\<exists>fb'. j < length os \<and> os ! j = Some (b, fb')"
      using nth_update_Some[OF h(2,5)] t o by auto
    ultimately show ?thesis using sinvD(4)[OF inv _ _ h(3)] by blast
  qed
qed

lemma sinv_complete:
  assumes inv: "sinv env tr d os" and t: "t < length os" and o: "os ! t = Some (mid, full)"
  shows "sinv env (tr @ [MessageComplete mid full]) d (os[t := None])"
proof (rule sinvI)
  let ?tr = "tr @ [MessageComplete mid full]"
  let ?os = "os[t := None]"
  from sinvD(3)[OF inv t o] have mine: "mid \<in> drawn env d" "full = fragments mid tr"
    "\<forall>x. MessageComplete mid x \<notin> set tr" by simp_all
  show "goodTrace ?tr"
    by (rule goodTrace_snoc[OF sinvD(1)[OF inv]]) (use mine in simp_all)
  show "m \<in> drawn env d" if "e \<in> set ?tr" "mentions e = Some m" for e m
  proof (cases "e \<in> set tr")
    case True
    from sinvD(2)[OF inv True that(2)] show ?thesis .
  next
    case False
    with that have "m = mid" by auto
    with mine(1) show ?thesis by simp
  qed
  show "mid' \<in> drawn env d \<and> full' = fragments mid' ?tr \<and> (\<forall>x. MessageComplete mid' x \<notin> set ?tr)"
    if h: "i < length ?os" "?os ! i = Some (mid', full')" for i mid' full'
  proof -
    from nth_update_Some[OF h] have a: "i \<noteq> t" "i < length os" "os ! i = Some (mid', full')"
      by auto
    then have old: "mid' \<in> drawn env d \<and> full' = fragments mid' tr \<and> (\<forall>x. MessageComplete mid' x \<notin> set tr)"
      using sinvD(3)[OF inv] by blast
    have "mid' \<noteq> mid"
      using sinvD(4)[OF inv a(2) t a(1) a(3) o] .
    then show ?thesis using old by (simp add: fragments_append)
  qed
  show "a \<noteq> b"
    if h: "i < length ?os" "j < length ?os" "i \<noteq> j" "?os ! i = Some (a, fa)" "?os ! j = Some (b, fb)"
    for i j a fa b fb
  proof -
    from nth_update_Some[OF h(1,4)] have "i < length os" "os ! i = Some (a, fa)" by auto
    moreover from nth_update_Some[OF h(2,5)] have "j < length os" "os ! j = Some (b, fb)" by auto
    ultimately show ?thesis using sinvD(4)[OF inv _ _ h(3)] by blast
  qed
qed


subsection \<open>The steps of the machine keep the invariant\<close>

lemma quietlyI:
  "agentEvent m' = agentEvent m @ evs \<Longrightarrow> \<forall>e \<in> set evs. mentions e = None \<Longrightarrow>
   draws m \<le> draws m' \<Longrightarrow> openState k = None \<Longrightarrow> quietly m (m', k)"
  by (auto simp: quietly_def)

lemma quietly_after:
  assumes "agentEvent m1 = agentEvent m @ evs0" "\<forall>e \<in> set evs0. mentions e = None"
    "draws m \<le> draws m1" "quietly m1 r"
  shows "quietly m r"
proof -
  from assms(4) obtain evs where e: "agentEvent (fst r) = agentEvent m1 @ evs"
    "\<forall>e \<in> set evs. mentions e = None" "draws m1 \<le> draws (fst r)" "openState (snd r) = None"
    by (auto simp: quietly_def)
  have "agentEvent (fst r) = agentEvent m @ (evs0 @ evs)" using e(1) assms(1) by simp
  moreover have "\<forall>e \<in> set (evs0 @ evs). mentions e = None" using e(2) assms(2) by auto
  moreover have "draws m \<le> draws (fst r)" using e(3) assms(3) by simp
  ultimately show ?thesis using e(4) unfolding quietly_def by blast
qed

lemma quietly_same:
  "agentEvent m1 = agentEvent m \<Longrightarrow> draws m1 = draws m \<Longrightarrow> quietly m1 r \<Longrightarrow> quietly m r"
  using quietly_after[of m1 m "[]" r] by simp

lemma quietly_catch: "quietly m (gr_catch e m)"
  by (simp add: quietly_def gr_catch_def)

lemma quietly_stream: "quietly m (gr_stream mt (callRunner env inp x m))"
proof (cases "run env (length (runCalls m)) inp x")
  case (Inl e)
  let ?m1 = "m\<lparr>runCalls := runCalls m @ [\<lparr>rc_runner = runner m, rc_input = inp, rc_maxTurns = x\<rparr>]\<rparr>"
  have "quietly m (gr_catch e ?m1)"
    by (rule quietly_same[OF _ _ quietly_catch]) simp_all
  then show ?thesis using Inl by (simp add: gr_stream_def callRunner_def)
next
  case (Inr res)
  show ?thesis
    using Inr
    by (simp add: gr_stream_def callRunner_def quietly_def initialLocals_def)
qed

lemma quietly_run: "quietly m (gr_run env msg m)"
proof -
  let ?m1 = "m\<lparr>history := history m @ [User msg]\<rparr>"
  have "quietly m (gr_stream (maxTurnsOf env ?m1)
          (callRunner env (FromHistory (history ?m1))
             (if shouldUseTools env m then Some (maxTurnsOf env ?m1) else None) ?m1))"
    by (rule quietly_same[OF _ _ quietly_stream]) simp_all
  then show ?thesis by (simp add: gr_run_def Let_def)
qed

lemma quietly_enter: "quietly m (gr_enter env msg m)"
proof -
  let ?m1 = "m\<lparr>controller := True\<rparr>"
  have a: "quietly m (gr_catch (Error ''Failed to initialize agent'') ?m1)"
    by (rule quietly_same[OF _ _ quietly_catch]) simp_all
  have b: "quietly m (gr_run env msg ?m1)"
    by (rule quietly_same[OF _ _ quietly_run]) simp_all
  have c: "quietly m (?m1\<lparr>isInitializing := True\<rparr>, AwaitInit msg)"
    by (rule quietlyI[of _ _ "[]"]) simp_all
  show ?thesis
    using a b c by (simp add: gr_enter_def Let_def initializeAgent_enter_def)
qed

lemma initializeAgent_settle_draws [simp]:
  "draws (initializeAgent_settle env m) = draws m"
  by (simp add: initializeAgent_settle_def warn_def split: sum.splits)

lemma quietly_after_init: "quietly m (gr_after_init env msg m)"
proof -
  let ?m1 = "initializeAgent_settle env m"
  have a: "quietly m (gr_catch (Error ''Failed to initialize agent'') ?m1)"
    by (rule quietly_same[OF _ _ quietly_catch]) simp_all
  have b: "quietly m (gr_run env msg ?m1)"
    by (rule quietly_same[OF _ _ quietly_run]) simp_all
  show ?thesis
    using a b by (simp add: gr_after_init_def Let_def)
qed

lemma quietly_poll: "quietly m (gr_poll env res mt m)"
proof (cases "pendingApprovals m = []")
  case True
  then show ?thesis by (simp add: gr_poll_def quietly_stream)
next
  case False
  have "quietly m (m, Polling res mt)"
    by (rule quietlyI[of _ _ "[]"]) simp_all
  then show ?thesis using False by (simp add: gr_poll_def)
qed

lemma registerGrouped_draws:
  "draws m \<le> draws (snd (registerGrouped env g is m))"
proof (induction "is" arbitrary: m)
  case Nil
  show ?case by simp
next
  case (Cons i "is")
  let ?m1 = "m\<lparr>draws := Suc (draws m),
                 pendingApprovals :=
                   AList.update (''int-'' @ stamp env (draws m))
                     \<lparr>interruption = i, approved = None, groupId = Some g\<rparr>
                     (pendingApprovals m)\<rparr>"
  from Cons.IH[of ?m1] show ?case
    by (simp add: Let_def case_prod_unfold)
qed

lemma requestApproval_quiet:
  "\<exists>evs. agentEvent (requestApproval env is m) = agentEvent m @ evs \<and>
         (\<forall>e \<in> set evs. mentions e = None) \<and> draws m \<le> draws (requestApproval env is m)"
proof (cases "1 < length is")
  case True
  let ?g = "''group-'' @ stamp env (draws m)"
  let ?r = "registerGrouped env ?g is (m\<lparr>draws := Suc (draws m)\<rparr>)"
  have "requestApproval env is m = emit (GroupedApprovalRequired ?g (fst ?r)) (snd ?r)"
    using True by (simp add: requestApproval_def handleGroupedToolApprovals_def Let_def case_prod_unfold)
  moreover have "agentEvent (snd ?r) = agentEvent m" by (simp add: registerGrouped_events)
  moreover have "draws m \<le> draws (snd ?r)"
    using registerGrouped_draws[of "m\<lparr>draws := Suc (draws m)\<rparr>" env ?g "is"] by simp
  ultimately show ?thesis by simp
next
  case False
  then show ?thesis
    by (cases "is") (simp_all add: requestApproval_def handleSingleToolApproval_def Let_def)
qed

lemma quietly_settle: "quietly m (gr_settle env res mt m)"
proof (cases "r_interruptions res = []")
  case True
  have "quietly m (m\<lparr>interruptedState := None, history := r_history res, controller := False\<rparr>,
                   Settled None)"
    by (rule quietlyI[of _ _ "[]"]) simp_all
  then show ?thesis using True by (simp add: gr_settle_def)
next
  case False
  let ?m0 = "m\<lparr>interruptedState := Some res\<rparr>"
  let ?m1 = "requestApproval env (r_interruptions res) ?m0"
  from requestApproval_quiet[of env "r_interruptions res" ?m0]
  obtain evs where e: "agentEvent ?m1 = agentEvent m @ evs" "\<forall>e \<in> set evs. mentions e = None"
    "draws m \<le> draws ?m1" by auto
  have "quietly m (gr_poll env res mt ?m1)"
    by (rule quietly_after[OF e quietly_poll])
  then show ?thesis using False by (simp add: gr_settle_def)
qed

lemma quietly_resume:
  assumes "\<And>res e es l mt. k \<noteq> Streaming res (e # es) l mt"
  shows "quietly m (resumeTask env k m)"
proof (cases k)
  case (AwaitInit msg)
  then show ?thesis by (simp add: quietly_after_init)
next
  case InitOnly
  have "quietly m (initializeAgent_settle env m, Settled None)"
    by (rule quietlyI[of _ _ "[]"]) simp_all
  then show ?thesis using InitOnly by simp
next
  case (Streaming res rest l mt)
  have "rest = []"
  proof (cases rest)
    case (Cons e es)
    with Streaming assms[of res e es l mt] show ?thesis by simp
  qed simp
  then show ?thesis
    using Streaming
    by (simp add: gr_next_def quietly_catch quietly_settle split: option.splits)
next
  case (Polling res mt)
  then show ?thesis by (simp add: quietly_poll)
next
  case (Settled outcome)
  have "quietly m (m, Settled outcome)"
    by (rule quietlyI[of _ _ "[]"]) simp_all
  then show ?thesis using Settled by simp
qed


lemma handleToolCallStart_quiet:
  "\<exists>evs. agentEvent (handleToolCallStart env me m) = agentEvent m @ evs \<and>
         (\<forall>e \<in> set evs. mentions e = None) \<and> draws (handleToolCallStart env me m) = draws m"
  by (cases me) simp_all

text \<open>The four things one turn of the \<open>for await\<close> loop can do to the message events.\<close>

lemma processEvent_kinds:
  assumes "processEvent env e l m = (l', m')"
  shows "(\<exists>evs. agentEvent m' = agentEvent m @ evs \<and> (\<forall>x \<in> set evs. mentions x = None) \<and>
                draws m' = draws m \<and> l' = l) \<or>
         (agentEvent m' = agentEvent m @ [MessageStart (''msg-'' @ stamp env (draws m))] \<and>
          draws m' = Suc (draws m) \<and> currentMessageId l' = Some (''msg-'' @ stamp env (draws m)) \<and>
          fullResponse l' = []) \<or>
         (\<exists>mid c. currentMessageId l = Some mid \<and>
                  agentEvent m' = agentEvent m @ [MessageChunk mid c (fullResponse l @ c)] \<and>
                  draws m' = draws m \<and> currentMessageId l' = Some mid \<and>
                  fullResponse l' = fullResponse l @ c) \<or>
         (\<exists>mid. currentMessageId l = Some mid \<and>
                agentEvent m' = agentEvent m @ [MessageComplete mid (fullResponse l)] \<and>
                draws m' = draws m \<and> currentMessageId l' = None)"
proof (cases "(env, e, l, m)" rule: processEvent.cases)
  case (1 env' l0 m0)
  with assms show ?thesis by (auto simp: Let_def)
next
  case (2 env' d l0 m0)
  with assms show ?thesis by (auto simp: Let_def split: option.splits)
next
  case (3 env' u l0 m0)
  with assms show ?thesis by (auto simp: addUsage_def Let_def split: option.splits)
next
  case (4 env' me l0 m0)
  with assms handleToolCallStart_quiet[of env me m] show ?thesis by auto
next
  case (5 env' l0 m0)
  with assms show ?thesis by auto
next
  case (6 env' name item l0 m0)
  with assms show ?thesis by (auto simp: handleToolOutput_def Let_def split: if_splits)
next
  case (7 env' l0 m0)
  with assms show ?thesis by auto
qed

lemma verdict_draws [simp]:
  "draws (applyVerdict i v m) = draws m"
  "draws (deletePending k m) = draws m"
  "draws (warn w m) = draws m"
  by (simp_all add: applyVerdict_def deletePending_def warn_def split: option.splits)

lemma resolveGrouped_draws: "draws (resolveGrouped v g ids m) = draws m"
  by (induction ids arbitrary: m) (simp_all split: option.splits)

lemma streamInv_step:
  assumes i: "inj (stamp env)" and inv: "streamInv env s"
  shows "streamInv env (step env a s)"
proof (cases a)
  case (CallGenerateResponse msg)
  from quietly_enter[of "mgr s" env msg] obtain evs where
    e: "agentEvent (fst (gr_enter env msg (mgr s))) = agentEvent (mgr s) @ evs"
       "\<forall>x \<in> set evs. mentions x = None"
       "draws (mgr s) \<le> draws (fst (gr_enter env msg (mgr s)))"
       "openState (snd (gr_enter env msg (mgr s))) = None"
    by (auto simp: quietly_def)
  have "sinv env (agentEvent (mgr s) @ evs) (draws (fst (gr_enter env msg (mgr s))))
          (map openState (tasks s) @ [None])"
    using sinv_quiet[OF sinv_new e(2,3)] inv by (simp add: streamInv_def)
  then show ?thesis
    using CallGenerateResponse e by (simp add: streamInv_def case_prod_unfold)
next
  case CallInitializeAgent
  have "sinv env (agentEvent (mgr s)) (draws (mgr s)) (map openState (tasks s) @ [None])"
    using sinv_new inv by (simp add: streamInv_def)
  then show ?thesis
    using CallInitializeAgent by (simp add: streamInv_def initializeAgent_enter_def)
next
  case (Resume t)
  show ?thesis
  proof (cases "t < length (tasks s)")
    case False
    then show ?thesis using Resume inv by simp
  next
    case True
    let ?os = "map openState (tasks s)"
    have inv': "sinv env (agentEvent (mgr s)) (draws (mgr s)) ?os"
      using inv by (simp add: streamInv_def)
    have tl: "t < length ?os" using True by simp
    show ?thesis
    proof (cases "\<exists>res e es l mt. tasks s ! t = Streaming res (e # es) l mt")
      case False
      then have "\<And>res e es l mt. tasks s ! t \<noteq> Streaming res (e # es) l mt" by blast
      from quietly_resume[OF this, of "mgr s" env] obtain evs where
        e: "agentEvent (fst (resumeTask env (tasks s ! t) (mgr s))) = agentEvent (mgr s) @ evs"
           "\<forall>x \<in> set evs. mentions x = None"
           "draws (mgr s) \<le> draws (fst (resumeTask env (tasks s ! t) (mgr s)))"
           "openState (snd (resumeTask env (tasks s ! t) (mgr s))) = None"
        by (auto simp: quietly_def)
      have "sinv env (agentEvent (mgr s) @ evs)
              (draws (fst (resumeTask env (tasks s ! t) (mgr s)))) (?os[t := None])"
        by (rule sinv_quiet[OF sinv_close[OF inv'] e(2,3)])
      then show ?thesis
        using Resume True e by (simp add: streamInv_def case_prod_unfold map_update)
    next
      case yes: True
      then obtain res e es l mt where k: "tasks s ! t = Streaming res (e # es) l mt" by blast
      obtain l' m' where pe: "processEvent env e l (mgr s) = (l', m')"
        by (cases "processEvent env e l (mgr s)")
      have st: "step env a s = \<lparr>mgr = m', tasks = (tasks s)[t := Streaming res es l' mt]\<rparr>"
        using Resume True k pe by (simp add: gr_next_def)
      have os: "?os ! t = openState (Streaming res (e # es) l mt)"
        using True k by simp
      from processEvent_kinds[OF pe]
      have "sinv env (agentEvent m') (draws m') (?os[t := openState (Streaming res es l' mt)])"
      proof (elim disjE exE conjE)
        fix evs
        assume q: "agentEvent m' = agentEvent (mgr s) @ evs" "\<forall>x \<in> set evs. mentions x = None"
          "draws m' = draws (mgr s)" "l' = l"
        have "?os[t := openState (Streaming res es l' mt)] = ?os"
          using os q(4) by (simp add: list_update_same_conv[OF tl])
        then show ?thesis
          using sinv_quiet[OF inv' q(2), of "draws m'"] q by simp
      next
        assume q: "agentEvent m' = agentEvent (mgr s) @ [MessageStart (''msg-'' @ stamp env (draws (mgr s)))]"
          "draws m' = Suc (draws (mgr s))"
          "currentMessageId l' = Some (''msg-'' @ stamp env (draws (mgr s)))" "fullResponse l' = []"
        show ?thesis
          using sinv_start[OF i inv' tl] q by simp
      next
        fix mid c
        assume q: "currentMessageId l = Some mid"
          "agentEvent m' = agentEvent (mgr s) @ [MessageChunk mid c (fullResponse l @ c)]"
          "draws m' = draws (mgr s)" "currentMessageId l' = Some mid"
          "fullResponse l' = fullResponse l @ c"
        have "?os ! t = Some (mid, fullResponse l)" using os q(1) by simp
        from sinv_chunk[OF inv' tl this, of c] show ?thesis using q by simp
      next
        fix mid
        assume q: "currentMessageId l = Some mid"
          "agentEvent m' = agentEvent (mgr s) @ [MessageComplete mid (fullResponse l)]"
          "draws m' = draws (mgr s)" "currentMessageId l' = None"
        have "?os ! t = Some (mid, fullResponse l)" using os q(1) by simp
        from sinv_complete[OF inv' tl this] show ?thesis using q by simp
      qed
      then show ?thesis
        by (simp add: st streamInv_def map_update)
    qed
  qed
next
  case (ApproveToolCall k)
  then show ?thesis
    using inv by (simp add: streamInv_def approveToolCall_def split: option.splits)
next
  case (RejectToolCall k)
  then show ?thesis
    using inv by (simp add: streamInv_def rejectToolCall_def split: option.splits)
next
  case (ApproveGroupedToolCalls g ids)
  then show ?thesis
    using inv by (simp add: streamInv_def approveGroupedToolCalls_def resolveGrouped_frame
          resolveGrouped_draws)
next
  case (RejectGroupedToolCalls g ids)
  then show ?thesis
    using inv by (simp add: streamInv_def rejectGroupedToolCalls_def resolveGrouped_frame
          resolveGrouped_draws)
next
  case ClearHistory
  then show ?thesis
    using inv by (simp add: streamInv_def clearHistory_def)
qed

lemma streamInv_exec:
  "inj (stamp env) \<Longrightarrow> streamInv env s \<Longrightarrow> streamInv env (exec env acts s)"
  by (induction acts arbitrary: s) (simp_all add: streamInv_step)

lemma streamInv_new: "streamInv env (newAgentManager env provider usage)"
  by (simp add: streamInv_def newAgentManager_def initializeAgent_enter_def sinv_def goodTrace_def)


text \<open>
  Claim C2. Provided the identifiers drawn from the clock and the random source are
  pairwise different, in the events emitted along any execution of a manager from its
  construction (calls, their turns, verdicts and clearings in any order) every
  \<open>message_chunk\<close> carries as \<open>fullContent\<close> the concatenation of the fragments of all
  chunks emitted so far for its message id (itself included), and every
  \<open>message_complete\<close> carries as \<open>content\<close> the concatenation of the fragments of all the
  chunks of its message id.
\<close>

theorem chunks_accumulate:
  assumes "inj (stamp env)"
  shows "(agentEvent (mgr (exec env acts (newAgentManager env provider usage))) =
            pre @ MessageChunk mid c f # post \<longrightarrow>
          f = fragments mid (pre @ [MessageChunk mid c f])) \<and>
         (agentEvent (mgr (exec env acts (newAgentManager env provider usage))) =
            pre @ MessageComplete mid content # post \<longrightarrow>
          content = fragments mid (agentEvent (mgr (exec env acts (newAgentManager env provider usage)))))"
proof -
  let ?tr = "agentEvent (mgr (exec env acts (newAgentManager env provider usage)))"
  have "streamInv env (exec env acts (newAgentManager env provider usage))"
    by (rule streamInv_exec[OF assms streamInv_new])
  then have g: "goodTrace ?tr"
    by (simp add: streamInv_def sinv_def)
  show ?thesis
  proof (intro conjI impI)
    assume "?tr = pre @ MessageChunk mid c f # post"
    with g have "f = fragments mid pre @ c" unfolding goodTrace_def by blast
    then show "f = fragments mid (pre @ [MessageChunk mid c f])"
      by (simp add: fragments_append)
  next
    assume d: "?tr = pre @ MessageComplete mid content # post"
    with g have "content = fragments mid pre \<and> fragments mid post = []"
      unfolding goodTrace_def by blast
    then show "content = fragments mid ?tr"
      by (simp add: d fragments_append)
  qed
qed

lemma demoTalk_eval:
  "agentEvent (mgr (exec demoEnv
      [Resume 0, CallGenerateResponse ''list files'', Resume 1, Resume 1, Resume 1, Resume 1, Resume 1]
      (newAgentManager demoEnv ''p1'' None))) =
     [MessageStart ''msg-7'', MessageChunk ''msg-7'' ''Hel'' ''Hel'',
      MessageChunk ''msg-7'' ''lo'' ''Hello'', MessageComplete ''msg-7'' ''Hello'']"
  by (simp add: demo_defs model_defs)

theorem chunks_accumulate_witness:
  "inj (stamp demoEnv) \<and>
   agentEvent (mgr (exec demoEnv
      [Resume 0, CallGenerateResponse ''list files'', Resume 1, Resume 1, Resume 1, Resume 1, Resume 1]
      (newAgentManager demoEnv ''p1'' None))) =
     [MessageStart ''msg-7'', MessageChunk ''msg-7'' ''Hel'' ''Hel''] @
     MessageChunk ''msg-7'' ''lo'' ''Hello'' # [MessageComplete ''msg-7'' ''Hello''] \<and>
   ''Hello'' = fragments ''msg-7''
      ([MessageStart ''msg-7'', MessageChunk ''msg-7'' ''Hel'' ''Hel''] @
       [MessageChunk ''msg-7'' ''lo'' ''Hello'']) \<and>
   agentEvent (mgr (exec demoEnv
      [Resume 0, CallGenerateResponse ''list files'', Resume 1, Resume 1, Resume 1, Resume 1, Resume 1]
      (newAgentManager demoEnv ''p1'' None))) =
     [MessageStart ''msg-7'', MessageChunk ''msg-7'' ''Hel'' ''Hel'',
      MessageChunk ''msg-7'' ''lo'' ''Hello''] @ MessageComplete ''msg-7'' ''Hello'' # [] \<and>
   ''Hello'' = fragments ''msg-7'' (agentEvent (mgr (exec demoEnv
      [Resume 0, CallGenerateResponse ''list files'', Resume 1, Resume 1, Resume 1, Resume 1, Resume 1]
      (newAgentManager demoEnv ''p1'' None))))"
  using chunks_accumulate[OF demoStamp_inj, where provider = "''p1''" and usage = None
          and acts = "[Resume 0, CallGenerateResponse ''list files'',
                       Resume 1, Resume 1, Resume 1, Resume 1, Resume 1]"
          and pre = "[MessageStart ''msg-7'', MessageChunk ''msg-7'' ''Hel'' ''Hel'']"
          and mid = "''msg-7''" and c = "''lo''" and f = "''Hello''"
          and post = "[MessageComplete ''msg-7'' ''Hello'']"]
        chunks_accumulate[OF demoStamp_inj, where provider = "''p1''" and usage = None
          and acts = "[Resume 0, CallGenerateResponse ''list files'',
                       Resume 1, Resume 1, Resume 1, Resume 1, Resume 1]"
          and pre = "[MessageStart ''msg-7'', MessageChunk ''msg-7'' ''Hel'' ''Hel'',
                      MessageChunk ''msg-7'' ''lo'' ''Hello'']"
          and mid = "''msg-7''" and content = "''Hello''" and post = "[]"]
        demoStamp_inj
  by (simp only: demoTalk_eval append.simps simp_thms)


subsection \<open>The order of the message events over a whole execution\<close>

lemma startedTrace_snoc:
  assumes "startedTrace tr"
    and "\<And>mid. mentions e = Some mid \<Longrightarrow> MessageStart mid \<in> set (tr @ [e])"
  shows "startedTrace (tr @ [e])"
proof -
  have "MessageStart mid \<in> set (pre @ [x])"
    if d: "tr @ [e] = pre @ x # post" and m: "mentions x = Some mid" for pre x post mid
    using snoc_split[OF d]
  proof (rule disjE)
    assume "pre = tr \<and> x = e \<and> post = []"
    with assms(2)[of mid] m show ?thesis by simp
  next
    assume "\<exists>post'. tr = pre @ x # post' \<and> post = post' @ [e]"
    with assms(1) m show ?thesis unfolding startedTrace_def by blast
  qed
  then show ?thesis unfolding startedTrace_def by blast
qed

lemma startedTrace_quiet:
  "startedTrace tr \<Longrightarrow> \<forall>e \<in> set evs. mentions e = None \<Longrightarrow> startedTrace (tr @ evs)"
proof (induction evs rule: rev_induct)
  case Nil
  then show ?case by simp
next
  case (snoc e evs)
  then have g: "startedTrace (tr @ evs)" and q: "mentions e = None" by simp_all
  have "startedTrace ((tr @ evs) @ [e])"
    using q by (intro startedTrace_snoc[OF g]) simp
  then show ?case by simp
qed

lemma oinvD:
  assumes "oinv tr os"
  shows "startedTrace tr"
    and "\<And>i mid full. i < length os \<Longrightarrow> os ! i = Some (mid, full) \<Longrightarrow> MessageStart mid \<in> set tr"
  using assms unfolding oinv_def by blast+

lemma oinvI:
  assumes "startedTrace tr"
    and "\<And>i mid full. i < length os \<Longrightarrow> os ! i = Some (mid, full) \<Longrightarrow> MessageStart mid \<in> set tr"
  shows "oinv tr os"
  unfolding oinv_def using assms by blast

lemma oinv_quiet:
  assumes inv: "oinv tr os" and q: "\<forall>e \<in> set evs. mentions e = None"
  shows "oinv (tr @ evs) os"
proof (rule oinvI)
  show "startedTrace (tr @ evs)"
    using oinvD(1)[OF inv] q by (rule startedTrace_quiet)
next
  fix i mid full assume "i < length os" "os ! i = Some (mid, full)"
  from oinvD(2)[OF inv this] show "MessageStart mid \<in> set (tr @ evs)" by simp
qed

lemma oinv_close:
  assumes inv: "oinv tr os"
  shows "oinv tr (os[t := None])"
proof (rule oinvI)
  show "startedTrace tr" by (rule oinvD(1)[OF inv])
next
  fix i mid full assume i: "i < length (os[t := None])" "os[t := None] ! i = Some (mid, full)"
  from nth_update_Some[OF i] have "i < length os" "os ! i = Some (mid, full)" by auto
  then show "MessageStart mid \<in> set tr" by (rule oinvD(2)[OF inv])
qed

lemma oinv_new:
  assumes inv: "oinv tr os"
  shows "oinv tr (os @ [None])"
proof (rule oinvI)
  show "startedTrace tr" by (rule oinvD(1)[OF inv])
next
  fix i mid full assume i: "i < length (os @ [None])" "(os @ [None]) ! i = Some (mid, full)"
  then have "i < length os" "os ! i = Some (mid, full)"
    by (simp_all add: nth_append split: if_splits)
  then show "MessageStart mid \<in> set tr" by (rule oinvD(2)[OF inv])
qed

lemma oinv_event:
  assumes inv: "oinv tr os"
    and e: "mentions e = Some mid" "MessageStart mid \<in> set (tr @ [e])"
    and v: "v = None \<or> (\<exists>full. v = Some (mid, full))"
  shows "oinv (tr @ [e]) (os[t := v])"
proof (rule oinvI)
  show "startedTrace (tr @ [e])"
    using e by (intro startedTrace_snoc[OF oinvD(1)[OF inv]]) simp
next
  fix i mid' full' assume i: "i < length (os[t := v])" "os[t := v] ! i = Some (mid', full')"
  from nth_update_Some[OF i] show "MessageStart mid' \<in> set (tr @ [e])"
  proof (rule disjE)
    assume "i = t \<and> v = Some (mid', full')"
    with v e(2) show ?thesis by auto
  next
    assume "i \<noteq> t \<and> i < length os \<and> os ! i = Some (mid', full')"
    with oinvD(2)[OF inv] show ?thesis by auto
  qed
qed

lemma orderInv_step:
  assumes inv: "orderInv s"
  shows "orderInv (step env a s)"
proof (cases a)
  case (CallGenerateResponse msg)
  from quietly_enter[of "mgr s" env msg] obtain evs where
    e: "agentEvent (fst (gr_enter env msg (mgr s))) = agentEvent (mgr s) @ evs"
       "\<forall>x \<in> set evs. mentions x = None"
       "openState (snd (gr_enter env msg (mgr s))) = None"
    by (auto simp: quietly_def)
  have "oinv (agentEvent (mgr s) @ evs) (map openState (tasks s) @ [None])"
    using oinv_quiet[OF oinv_new e(2)] inv by (simp add: orderInv_def)
  then show ?thesis
    using CallGenerateResponse e by (simp add: orderInv_def case_prod_unfold)
next
  case CallInitializeAgent
  have "oinv (agentEvent (mgr s)) (map openState (tasks s) @ [None])"
    using oinv_new inv by (simp add: orderInv_def)
  then show ?thesis
    using CallInitializeAgent by (simp add: orderInv_def initializeAgent_enter_def)
next
  case (Resume t)
  show ?thesis
  proof (cases "t < length (tasks s)")
    case False
    then show ?thesis using Resume inv by simp
  next
    case True
    let ?os = "map openState (tasks s)"
    have inv': "oinv (agentEvent (mgr s)) ?os"
      using inv by (simp add: orderInv_def)
    have tl: "t < length ?os" using True by simp
    show ?thesis
    proof (cases "\<exists>res e es l mt. tasks s ! t = Streaming res (e # es) l mt")
      case False
      then have "\<And>res e es l mt. tasks s ! t \<noteq> Streaming res (e # es) l mt" by blast
      from quietly_resume[OF this, of "mgr s" env] obtain evs where
        e: "agentEvent (fst (resumeTask env (tasks s ! t) (mgr s))) = agentEvent (mgr s) @ evs"
           "\<forall>x \<in> set evs. mentions x = None"
           "openState (snd (resumeTask env (tasks s ! t) (mgr s))) = None"
        by (auto simp: quietly_def)
      have "oinv (agentEvent (mgr s) @ evs) (?os[t := None])"
        by (rule oinv_quiet[OF oinv_close[OF inv'] e(2)])
      then show ?thesis
        using Resume True e by (simp add: orderInv_def case_prod_unfold map_update)
    next
      case yes: True
      then obtain res e es l mt where k: "tasks s ! t = Streaming res (e # es) l mt" by blast
      obtain l' m' where pe: "processEvent env e l (mgr s) = (l', m')"
        by (cases "processEvent env e l (mgr s)")
      have st: "step env a s = \<lparr>mgr = m', tasks = (tasks s)[t := Streaming res es l' mt]\<rparr>"
        using Resume True k pe by (simp add: gr_next_def)
      have os: "?os ! t = openState (Streaming res (e # es) l mt)"
        using True k by simp
      from processEvent_kinds[OF pe]
      have "oinv (agentEvent m') (?os[t := openState (Streaming res es l' mt)])"
      proof (elim disjE exE conjE)
        fix evs
        assume q: "agentEvent m' = agentEvent (mgr s) @ evs" "\<forall>x \<in> set evs. mentions x = None"
          "draws m' = draws (mgr s)" "l' = l"
        have "?os[t := openState (Streaming res es l' mt)] = ?os"
          using os q(4) by (simp add: list_update_same_conv[OF tl])
        then show ?thesis
          using oinv_quiet[OF inv' q(2)] q by simp
      next
        assume q: "agentEvent m' = agentEvent (mgr s) @ [MessageStart (''msg-'' @ stamp env (draws (mgr s)))]"
          "draws m' = Suc (draws (mgr s))"
          "currentMessageId l' = Some (''msg-'' @ stamp env (draws (mgr s)))" "fullResponse l' = []"
        show ?thesis
          using oinv_event[OF inv', of "MessageStart (''msg-'' @ stamp env (draws (mgr s)))"
                  "''msg-'' @ stamp env (draws (mgr s))"
                  "Some (''msg-'' @ stamp env (draws (mgr s)), [])" t] q
          by simp
      next
        fix mid c
        assume q: "currentMessageId l = Some mid"
          "agentEvent m' = agentEvent (mgr s) @ [MessageChunk mid c (fullResponse l @ c)]"
          "draws m' = draws (mgr s)" "currentMessageId l' = Some mid"
          "fullResponse l' = fullResponse l @ c"
        have "?os ! t = Some (mid, fullResponse l)" using os q(1) by simp
        from oinvD(2)[OF inv' tl this] have "MessageStart mid \<in> set (agentEvent (mgr s))" .
        then show ?thesis
          using oinv_event[OF inv', of "MessageChunk mid c (fullResponse l @ c)" mid
                  "Some (mid, fullResponse l @ c)" t] q
          by simp
      next
        fix mid
        assume q: "currentMessageId l = Some mid"
          "agentEvent m' = agentEvent (mgr s) @ [MessageComplete mid (fullResponse l)]"
          "draws m' = draws (mgr s)" "currentMessageId l' = None"
        have "?os ! t = Some (mid, fullResponse l)" using os q(1) by simp
        from oinvD(2)[OF inv' tl this] have "MessageStart mid \<in> set (agentEvent (mgr s))" .
        then show ?thesis
          using oinv_event[OF inv', of "MessageComplete mid (fullResponse l)" mid None t] q
          by simp
      qed
      then show ?thesis
        by (simp add: st orderInv_def map_update)
    qed
  qed
next
  case (ApproveToolCall k)
  then show ?thesis
    using inv by (simp add: orderInv_def approveToolCall_def split: option.splits)
next
  case (RejectToolCall k)
  then show ?thesis
    using inv by (simp add: orderInv_def rejectToolCall_def split: option.splits)
next
  case (ApproveGroupedToolCalls g ids)
  then show ?thesis
    using inv by (simp add: orderInv_def approveGroupedToolCalls_def resolveGrouped_frame)
next
  case (RejectGroupedToolCalls g ids)
  then show ?thesis
    using inv by (simp add: orderInv_def rejectGroupedToolCalls_def resolveGrouped_frame)
next
  case ClearHistory
  then show ?thesis
    using inv by (simp add: orderInv_def clearHistory_def)
qed

lemma orderInv_exec: "orderInv s \<Longrightarrow> orderInv (exec env acts s)"
  by (induction acts arbitrary: s) (simp_all add: orderInv_step)

lemma orderInv_new: "orderInv (newAgentManager env provider usage)"
  by (simp add: orderInv_def newAgentManager_def initializeAgent_enter_def oinv_def startedTrace_def)

lemma demoSession_eval:
  "agentEvent (mgr (exec demoEnv demoSession (newAgentManager demoEnv ''p1'' None))) =
     [MessageStart ''msg-7'', MessageChunk ''msg-7'' ''Hel'' ''Hel'',
      MessageChunk ''msg-7'' ''lo'' ''Hello'', MessageComplete ''msg-7'' ''Hello'',
      ToolCallStart ''call-1'' ''list_files'' ''{}'',
      ToolApprovalRequired ''int-77'' ''list_files'' ''{}'' (Some ''call-1''),
      ToolCallComplete ''call-1'' ''list_files'' ''a.txt'' False,
      MessageStart ''msg-777'', MessageChunk ''msg-777'' ''ok'' ''ok'',
      MessageComplete ''msg-777'' ''ok'']"
  by (simp add: demoSession_def demoTurns_def demo_defs model_defs)

lemma demoResultD_emitted:
  "emitted demoEnv demoResultD (mgr demoReady) =
     [MessageStart ''msg-7'', MessageChunk ''msg-7'' ''a'' ''a'',
      MessageComplete ''msg-7'' ''a'', MessageStart ''msg-77'',
      MessageChunk ''msg-77'' ''b'' ''b'', MessageComplete ''msg-77'' ''b'']"
  by (simp add: emitted_def processRunResult_def demoReady_eval demoResultD_def demoEnv_def
        demoStamp_def initialLocals_def emit_def addUsage_def Let_def)

text \<open>
  Claim C9. Along any execution of a manager from its construction (calls, their turns,
  verdicts and clearings in any order), every \<open>message_chunk\<close> and every
  \<open>message_complete\<close> comes after a \<open>message_start\<close> with the same message id; the same
  holds inside the events that one call of \<open>_processRunResult\<close> emits. A text delta that
  arrives while no response has started in the stream is dropped: processing it changes
  nothing and emits nothing. In the events of one call of \<open>_processRunResult\<close>, after a
  \<open>message_complete\<close> no \<open>message_chunk\<close> (of that id or of any other) is emitted before a
  new \<open>message_start\<close>. Over a whole execution, provided the identifiers drawn from the
  clock and the random source are pairwise different, no \<open>message_chunk\<close> carries the id
  of a \<open>message_complete\<close> emitted before it.
\<close>

theorem message_events_follow_a_start:
  "(agentEvent (mgr (exec env acts (newAgentManager env provider usage))) = pre @ e # post \<and>
      (e = MessageChunk mid c f \<or> e = MessageComplete mid c)
      \<longrightarrow> MessageStart mid \<in> set pre) \<and>
   (emitted env res m = pre @ e # post \<and> (e = MessageChunk mid c f \<or> e = MessageComplete mid c)
      \<longrightarrow> MessageStart mid \<in> set pre) \<and>
   (RawModelStreamEvent ResponseStarted \<notin> set items \<longrightarrow>
      processEvents env (items @ [RawModelStreamEvent (OutputTextDelta d)]) initialLocals m =
      processEvents env items initialLocals m) \<and>
   (emitted env res m = pre @ MessageComplete mid c # between @ MessageChunk mid' c' f' # post
      \<longrightarrow> (\<exists>x. MessageStart x \<in> set between)) \<and>
   (inj (stamp env) \<and>
    agentEvent (mgr (exec env acts (newAgentManager env provider usage))) =
      pre @ MessageComplete mid c # post
      \<longrightarrow> MessageChunk mid c' f' \<notin> set post)"
proof (intro conjI impI)
  let ?tr = "agentEvent (mgr (exec env acts (newAgentManager env provider usage)))"
  assume a: "?tr = pre @ e # post \<and> (e = MessageChunk mid c f \<or> e = MessageComplete mid c)"
  have "orderInv (exec env acts (newAgentManager env provider usage))"
    by (rule orderInv_exec[OF orderInv_new])
  then have "startedTrace ?tr"
    by (simp add: orderInv_def oinv_def)
  moreover have "mentions e = Some mid" using a by auto
  ultimately have "MessageStart mid \<in> set (pre @ [e])"
    using a unfolding startedTrace_def by blast
  with a show "MessageStart mid \<in> set pre" by auto
next
  assume a: "emitted env res m = pre @ e # post \<and>
             (e = MessageChunk mid c f \<or> e = MessageComplete mid c)"
  have "conforms None [] (pre @ e # post)"
    using emitted_conforms[of env res m] a by simp
  from conforms_needs_start[OF this] a show "MessageStart mid \<in> set pre"
    by auto
next
  assume n: "RawModelStreamEvent ResponseStarted \<notin> set items"
  have "currentMessageId (fst (processEvents env items initialLocals m)) = None"
    using processEvents_not_started[OF n, of initialLocals env m] by (simp add: initialLocals_def)
  then show "processEvents env (items @ [RawModelStreamEvent (OutputTextDelta d)]) initialLocals m =
             processEvents env items initialLocals m"
    by (simp add: processEvents_append case_prod_unfold)
next
  assume a: "emitted env res m =
               pre @ MessageComplete mid c # between @ MessageChunk mid' c' f' # post"
  have "conforms None [] (pre @ MessageComplete mid c # between @ MessageChunk mid' c' f' # post)"
    using emitted_conforms[of env res m] a by simp
  from conforms_after_complete[OF this] obtain acc' where
    "conforms None acc' (between @ MessageChunk mid' c' f' # post)" by blast
  from conforms_needs_start[OF this, of mid' c' f'] show "\<exists>x. MessageStart x \<in> set between"
    by auto
next
  let ?tr = "agentEvent (mgr (exec env acts (newAgentManager env provider usage)))"
  assume a: "inj (stamp env) \<and> ?tr = pre @ MessageComplete mid c # post"
  then have "streamInv env (exec env acts (newAgentManager env provider usage))"
    using streamInv_exec[OF _ streamInv_new] by blast
  then have "goodTrace ?tr"
    by (simp add: streamInv_def sinv_def)
  with a show "MessageChunk mid c' f' \<notin> set post"
    unfolding goodTrace_def by blast
qed

theorem message_events_follow_a_start_witness:
  "agentEvent (mgr (exec demoEnv demoSession (newAgentManager demoEnv ''p1'' None))) =
     [MessageStart ''msg-7'', MessageChunk ''msg-7'' ''Hel'' ''Hel'',
      MessageChunk ''msg-7'' ''lo'' ''Hello'', MessageComplete ''msg-7'' ''Hello'',
      ToolCallStart ''call-1'' ''list_files'' ''{}'',
      ToolApprovalRequired ''int-77'' ''list_files'' ''{}'' (Some ''call-1''),
      ToolCallComplete ''call-1'' ''list_files'' ''a.txt'' False,
      MessageStart ''msg-777''] @
     MessageChunk ''msg-777'' ''ok'' ''ok'' # [MessageComplete ''msg-777'' ''ok''] \<and>
   MessageStart ''msg-777'' \<in> set
     [MessageStart ''msg-7'', MessageChunk ''msg-7'' ''Hel'' ''Hel'',
      MessageChunk ''msg-7'' ''lo'' ''Hello'', MessageComplete ''msg-7'' ''Hello'',
      ToolCallStart ''call-1'' ''list_files'' ''{}'',
      ToolApprovalRequired ''int-77'' ''list_files'' ''{}'' (Some ''call-1''),
      ToolCallComplete ''call-1'' ''list_files'' ''a.txt'' False,
      MessageStart ''msg-777''] \<and>
   emitted demoEnv demoResultA (mgr demoReady) =
     [MessageStart ''msg-7''] @ MessageChunk ''msg-7'' ''Hel'' ''Hel'' #
     [MessageChunk ''msg-7'' ''lo'' ''Hello'', MessageComplete ''msg-7'' ''Hello'',
      ToolCallStart ''call-1'' ''list_files'' ''{}''] \<and>
   MessageStart ''msg-7'' \<in> set [MessageStart ''msg-7''] \<and>
   RawModelStreamEvent ResponseStarted \<notin> set [OtherStreamEvent] \<and>
   processEvents demoEnv [OtherStreamEvent, RawModelStreamEvent (OutputTextDelta (Some ''lost''))]
     initialLocals (mgr demoReady) =
   processEvents demoEnv [OtherStreamEvent] initialLocals (mgr demoReady) \<and>
   emitted demoEnv demoResultD (mgr demoReady) =
     [MessageStart ''msg-7'', MessageChunk ''msg-7'' ''a'' ''a''] @
     MessageComplete ''msg-7'' ''a'' # [MessageStart ''msg-77''] @
     MessageChunk ''msg-77'' ''b'' ''b'' # [MessageComplete ''msg-77'' ''b''] \<and>
   (\<exists>x. MessageStart x \<in> set [MessageStart ''msg-77'']) \<and>
   inj (stamp demoEnv) \<and>
   MessageChunk ''msg-7'' ''ok'' ''ok'' \<notin> set
     [ToolCallStart ''call-1'' ''list_files'' ''{}'',
      ToolApprovalRequired ''int-77'' ''list_files'' ''{}'' (Some ''call-1''),
      ToolCallComplete ''call-1'' ''list_files'' ''a.txt'' False,
      MessageStart ''msg-777'', MessageChunk ''msg-777'' ''ok'' ''ok'',
      MessageComplete ''msg-777'' ''ok'']"
  using message_events_follow_a_start[where env = demoEnv and acts = demoSession
          and provider = "''p1''" and usage = None
          and pre = "[MessageStart ''msg-7'', MessageChunk ''msg-7'' ''Hel'' ''Hel'',
            MessageChunk ''msg-7'' ''lo'' ''Hello'', MessageComplete ''msg-7'' ''Hello'',
            ToolCallStart ''call-1'' ''list_files'' ''{}'',
            ToolApprovalRequired ''int-77'' ''list_files'' ''{}'' (Some ''call-1''),
            ToolCallComplete ''call-1'' ''list_files'' ''a.txt'' False,
            MessageStart ''msg-777'']"
          and e = "MessageChunk ''msg-777'' ''ok'' ''ok''"
          and post = "[MessageComplete ''msg-777'' ''ok'']"
          and mid = "''msg-777''" and c = "''ok''" and f = "''ok''"]
        message_events_follow_a_start[where env = demoEnv and res = demoResultA
          and m = "mgr demoReady" and pre = "[MessageStart ''msg-7'']"
          and e = "MessageChunk ''msg-7'' ''Hel'' ''Hel''"
          and post = "[MessageChunk ''msg-7'' ''lo'' ''Hello'', MessageComplete ''msg-7'' ''Hello'',
            ToolCallStart ''call-1'' ''list_files'' ''{}'']"
          and mid = "''msg-7''" and c = "''Hel''" and f = "''Hel''"
          and items = "[OtherStreamEvent]" and d = "Some ''lost''"]
        message_events_follow_a_start[where env = demoEnv and res = demoResultD
          and m = "mgr demoReady"
          and pre = "[MessageStart ''msg-7'', MessageChunk ''msg-7'' ''a'' ''a'']"
          and mid = "''msg-7''" and c = "''a''" and between = "[MessageStart ''msg-77'']"
          and mid' = "''msg-77''" and c' = "''b''" and f' = "''b''"
          and post = "[MessageComplete ''msg-77'' ''b'']"]
        message_events_follow_a_start[where env = demoEnv and acts = demoSession
          and provider = "''p1''" and usage = None
          and pre = "[MessageStart ''msg-7'', MessageChunk ''msg-7'' ''Hel'' ''Hel'',
            MessageChunk ''msg-7'' ''lo'' ''Hello'']"
          and mid = "''msg-7''" and c = "''Hello''"
          and post = "[ToolCallStart ''call-1'' ''list_files'' ''{}'',
            ToolApprovalRequired ''int-77'' ''list_files'' ''{}'' (Some ''call-1''),
            ToolCallComplete ''call-1'' ''list_files'' ''a.txt'' False,
            MessageStart ''msg-777'', MessageChunk ''msg-777'' ''ok'' ''ok'',
            MessageComplete ''msg-777'' ''ok'']"
          and c' = "''ok''" and f' = "''ok''"]
        demoStamp_inj
  by (simp add: demo_emitted demoResultD_emitted demoSession_eval)

end
